theory Spec2Isabelle
  imports Main
begin

section \<open>Data model of cloudinstall/gui.py\<close>

text \<open>
  A charm class as \<open>ControllerOverlay._process\<close> uses it. \<open>cls_ident\<close> stands for the
  identity of the Python class object (membership tests \<open>c not in ...\<close> compare classes),
  \<open>deploy_priority\<close> is the sort key, \<open>name\<close> is what \<open>charm.name()\<close> returns and
  \<open>charm_name\<close> is the attribute read in the relation loop.
\<close>

record charm_class =
  cls_ident :: string
  deploy_priority :: int
  name :: string
  charm_name :: string

record machine =
  machine_id :: string
  agent_state :: string
  dns_name :: string

record service =
  service_name :: string

text \<open>
  The polled states. \<open>machines_allocated\<close> holds what \<open>juju_state.machines_allocated()\<close>
  yields, \<open>maas_machines_allocated\<close> what \<open>maas_state.machines_allocated()\<close> yields.
\<close>

record juju_state =
  services :: "service list"
  machines_allocated :: "machine list"

record maas_state =
  maas_machines_allocated :: "machine list"

text \<open>
  Modelled from the spec: \<open>JujuState.service(name)\<close> is defined outside gui.py. The
  orchestrator defers a charm when "the snapshot shows no live service with that charm's
  name yet", so the lookup is the first service of that name, or \<open>None\<close>.
\<close>

definition service :: "juju_state \<Rightarrow> string \<Rightarrow> service option" where
  "service js n = find (\<lambda>s. service_name s = n) (services js)"

text \<open>The two mode constants of the \<open>pegasus\<close> module, taken as parameters.\<close>

record pegasus =
  MULTI_SYSTEM :: bool
  SINGLE_SYSTEM :: bool

text \<open>
  The two functions that \<open>NodeViewMode.tick\<close> hands to \<open>loop.run_async\<close>: the blocking
  \<open>refresh_states\<close> and the callback \<open>update_and_redraw\<close>.
\<close>

datatype blocking_fn = RefreshStates

datatype callback_fn = UpdateAndRedraw

text \<open>
  Calls that leave an object, in the order they are made: the command runner's
  \<open>add_machine()\<close> (a direct call of \<open>client.add_machine\<close>), \<open>utils._run(cmd)\<close>, the three
  charm hooks, \<open>loop.run_async(f, callback)\<close> and \<open>loop.draw_screen()\<close>. A hook is
  recorded when it is invoked, whether or not it then raises.
\<close>

datatype event =
    AddMachine
  | Run string
  | Setup charm_class string
  | SetRelations charm_class
  | PostProc charm_class
  | RunAsync blocking_fn callback_fn
  | DrawScreen

text \<open>
  The exceptions of the model: a charm hook that raises, \<open>add_machine\<close> that raises,
  \<open>utils._run\<close> that raises, the attribute access on a \<open>None\<close> machine, and unpacking
  a \<open>None\<close> poll result. \<open>_process\<close> has no \<open>try\<close>, so each of them leaves it.
\<close>

datatype exc = HookFailure | ClientFailure | RunFailure | AttributeError | TypeError

text \<open>
  The code outside gui.py that one call of \<open>process\<close> runs, as far as it can fail: which
  hook calls raise, whether \<open>command_runner.add_machine()\<close> raises, and which commands
  make \<open>utils._run\<close> raise. Creating a charm object and reading its name are taken not
  to raise.
\<close>

record env =
  setup_raises :: "charm_class \<Rightarrow> string \<Rightarrow> bool"
  set_relations_raises :: "charm_class \<Rightarrow> bool"
  post_proc_raises :: "charm_class \<Rightarrow> bool"
  add_machine_raises :: bool
  run_raises :: "string \<Rightarrow> bool"

text \<open>
  The fields of \<open>ControllerOverlay\<close> set in \<open>__init__\<close> (\<open>done_flag\<close> is \<open>self.done\<close>,
  \<open>info_text\<close> the text shown by the widget), and \<open>trace\<close>, the calls made so far.
\<close>

record overlay =
  done_flag :: bool
  machine :: "machine option"
  deployed_charm_classes :: "charm_class list"
  finalized_charm_classes :: "charm_class list"
  single_net_configured :: bool
  info_text :: string
  trace :: "event list"

definition PXE_BOOT :: string where
  "PXE_BOOT = ''You need one node to act as the cloud controller. Please PXE boot the node you would like to use.''"

definition NODE_WAIT :: string where
  "NODE_WAIT = ''Please wait while the cloud controller is installed on your host system.''"

definition init_overlay :: "pegasus \<Rightarrow> overlay" where
  "init_overlay cfg =
     \<lparr> done_flag = False, machine = None, deployed_charm_classes = [],
       finalized_charm_classes = [], single_net_configured = False,
       info_text = (if SINGLE_SYSTEM cfg then NODE_WAIT else PXE_BOOT),
       trace = [] \<rparr>"

definition emit :: "event \<Rightarrow> overlay \<Rightarrow> overlay" where
  "emit e s = s\<lparr>trace := trace s @ [e]\<rparr>"

section \<open>Controller acquisition\<close>

definition get_started_machine :: "machine list \<Rightarrow> overlay \<Rightarrow> machine option \<times> overlay" where
  "get_started_machine allocated s =
     (let started_machines = filter (\<lambda>m. agent_state m = ''started'') allocated in
      if length started_machines = 0
      then (None, s\<lparr>info_text := ''Waiting for a machine to become ready.''\<rparr>)
      else (Some (hd started_machines), s))"

definition get_controller_machine ::
  "env \<Rightarrow> pegasus \<Rightarrow> juju_state \<Rightarrow> maas_state \<Rightarrow> overlay
     \<Rightarrow> (exc + machine option) \<times> overlay" where
  "get_controller_machine ev cfg js ms s =
     (let allocated = machines_allocated js in
      if MULTI_SYSTEM cfg then
        (let maas_allocated = maas_machines_allocated ms in
         if length allocated = 0 \<and> length maas_allocated = 0
         then (Inr None,
               s\<lparr>info_text := ''No machines allocated to juju. Please pxe boot a machine.''\<rparr>)
         else if length allocated = 0 \<and> length maas_allocated > 0
         then (let s1 = emit AddMachine (s\<lparr>info_text := ''Adding maas machine to juju''\<rparr>) in
               if add_machine_raises ev then (Inl ClientFailure, s1) else (Inr None, s1))
         else (case get_started_machine allocated s of (mo, s1) \<Rightarrow> (Inr mo, s1)))
      else if SINGLE_SYSTEM cfg
      then (case get_started_machine allocated s of (mo, s1) \<Rightarrow> (Inr mo, s1))
      else (Inr None, s))"

text \<open>Python's \<open>sep.join(xs)\<close>.\<close>

fun join :: "string \<Rightarrow> string list \<Rightarrow> string" where
  "join sep [] = []"
| "join sep [x] = x"
| "join sep (x # y # ys) = x @ sep @ join sep (y # ys)"

text \<open>The two commands that \<open>configure_lxc_network\<close> runs on \<open>host\<close>.\<close>

definition scp_cmd :: "string \<Rightarrow> string" where
  "scp_cmd host =
     ''scp -oStrictHostKeyChecking=no /usr/share/cloud-installer/templates/lxc-host-only ubuntu@''
       @ host @ '':/tmp/lxc-host-only''"

definition ssh_cmd :: "string \<Rightarrow> string" where
  "ssh_cmd host =
     (let cmds = [''sudo mv /tmp/lxc-host-only /etc/network/interfaces.d/lxcbr0.cfg'',
                  ''sudo rm /etc/network/interfaces.d/eth0.cfg'',
                  ''sudo reboot'']
      in ''ssh -oStrictHostKeyChecking=no ubuntu@'' @ host @ '' '' @ join '' && '' cmds)"

text \<open>
  \<open>configure_lxc_network\<close>: the latch is set by the last statement, after both commands
  have returned.
\<close>

definition configure_lxc_network :: "env \<Rightarrow> overlay \<Rightarrow> (exc + unit) \<times> overlay" where
  "configure_lxc_network ev s =
     (case machine s of
        None \<Rightarrow> (Inl AttributeError, s)
      | Some m \<Rightarrow>
          (let host = dns_name m;
               s1 = emit (Run (scp_cmd host)) s in
           if run_raises ev (scp_cmd host) then (Inl RunFailure, s1)
           else
             (let s2 = emit (Run (ssh_cmd host)) s1 in
              if run_raises ev (ssh_cmd host) then (Inl RunFailure, s2)
              else (Inr (), s2\<lparr>single_net_configured := True\<rparr>))))"

text \<open>
  Lines 124-134 of \<open>_process\<close>. \<open>Inr (Some b)\<close> is an early \<open>return b\<close>, \<open>Inr None\<close> falls
  through to the deployment loop.
\<close>

definition acquire_controller ::
  "env \<Rightarrow> pegasus \<Rightarrow> juju_state \<Rightarrow> maas_state \<Rightarrow> overlay
     \<Rightarrow> (exc + bool option) \<times> overlay" where
  "acquire_controller ev cfg js ms s =
     (if machine s = None then
        (case get_controller_machine ev cfg js ms s of
           (Inl e, s1) \<Rightarrow> (Inl e, s1)
         | (Inr mo, s1) \<Rightarrow>
             (let s2 = s1\<lparr>machine := mo\<rparr> in
              if machine s2 = None then (Inr (Some True), s2)
              else if SINGLE_SYSTEM cfg \<and> \<not> single_net_configured s2 then
                (case configure_lxc_network ev s2 of
                   (Inl e, s3) \<Rightarrow> (Inl e, s3)
                 | (Inr u, s3) \<Rightarrow> (Inr None, s3))
              else (Inr None, s2)))
      else (Inr None, s))"

section \<open>Charm deployment and relation finalization\<close>

text \<open>The loop of lines 142-159 over \<open>undeployed_charm_classes\<close>.\<close>

fun deploy_loop :: "env \<Rightarrow> juju_state \<Rightarrow> charm_class list \<Rightarrow> overlay \<Rightarrow> (exc + unit) \<times> overlay" where
  "deploy_loop ev js [] s = (Inr (), s)"
| "deploy_loop ev js (c # cs) s =
     (let service_names = map service_name (services js) in
      if name c \<in> set service_names
      then deploy_loop ev js cs (s\<lparr>deployed_charm_classes := deployed_charm_classes s @ [c]\<rparr>)
      else
        (case machine s of
           None \<Rightarrow> (Inl AttributeError, s)
         | Some m \<Rightarrow>
             (let target = ''lxc:'' @ machine_id m;
                  s1 = emit (Setup c target) s in
              if setup_raises ev c target then (Inl HookFailure, s1)
              else deploy_loop ev js cs
                     (s1\<lparr>deployed_charm_classes := deployed_charm_classes s1 @ [c]\<rparr>))))"

text \<open>The loop of lines 167-182 over \<open>unfinalized_charm_classes\<close>.\<close>

fun finalize_loop :: "env \<Rightarrow> juju_state \<Rightarrow> charm_class list \<Rightarrow> overlay \<Rightarrow> (exc + unit) \<times> overlay" where
  "finalize_loop ev js [] s = (Inr (), s)"
| "finalize_loop ev js (c # cs) s =
     (if service js (charm_name c) = None then finalize_loop ev js cs s
      else
        (let s1 = emit (SetRelations c) s in
         if set_relations_raises ev c then (Inl HookFailure, s1)
         else
           (let s2 = emit (PostProc c) s1 in
            if post_proc_raises ev c then (Inl HookFailure, s2)
            else finalize_loop ev js cs
                   (s2\<lparr>finalized_charm_classes := finalized_charm_classes s2 @ [c]\<rparr>))))"

definition deploy_step :: "env \<Rightarrow> juju_state \<Rightarrow> charm_class list \<Rightarrow> overlay \<Rightarrow> (exc + unit) \<times> overlay" where
  "deploy_step ev js charm_classes s =
     (let undeployed_charm_classes =
            filter (\<lambda>c. c \<notin> set (deployed_charm_classes s)) charm_classes in
      if length undeployed_charm_classes > 0
      then deploy_loop ev js undeployed_charm_classes (s\<lparr>info_text := ''Deploying charms''\<rparr>)
      else (Inr (), s))"

definition finalize_step :: "env \<Rightarrow> juju_state \<Rightarrow> overlay \<Rightarrow> (exc + unit) \<times> overlay" where
  "finalize_step ev js s =
     (let unfinalized_charm_classes =
            filter (\<lambda>c. c \<notin> set (finalized_charm_classes s)) (deployed_charm_classes s) in
      if length unfinalized_charm_classes > 0
      then finalize_loop ev js unfinalized_charm_classes (s\<lparr>info_text := ''Setting charm relations''\<rparr>)
      else (Inr (), s))"

text \<open>
  \<open>ControllerOverlay._process\<close>. \<open>modules\<close> are the charm classes of the charm modules in
  the order \<open>pkgutil.iter_modules\<close> lists them; \<open>sorted\<close> is stable, as \<open>sort_key\<close> is.
\<close>

definition process_body ::
  "pegasus \<Rightarrow> charm_class list \<Rightarrow> env \<Rightarrow> juju_state \<Rightarrow> maas_state \<Rightarrow> overlay \<Rightarrow> (exc + bool) \<times> overlay" where
  "process_body cfg modules ev js ms s =
     (let charm_classes = sort_key deploy_priority modules in
      case acquire_controller ev cfg js ms s of
        (Inl e, s1) \<Rightarrow> (Inl e, s1)
      | (Inr (Some b), s1) \<Rightarrow> (Inr b, s1)
      | (Inr None, s1) \<Rightarrow>
          (case deploy_step ev js charm_classes s1 of
             (Inl e, s2) \<Rightarrow> (Inl e, s2)
           | (Inr u, s2) \<Rightarrow>
               (case finalize_step ev js s2 of
                  (Inl e, s3) \<Rightarrow> (Inl e, s3)
                | (Inr v, s3) \<Rightarrow>
                    (if length (finalized_charm_classes s3) = length charm_classes
                     then (Inr False, s3) else (Inr True, s3)))))"

text \<open>\<open>ControllerOverlay.process\<close>.\<close>

definition process ::
  "pegasus \<Rightarrow> charm_class list \<Rightarrow> env \<Rightarrow> juju_state \<Rightarrow> maas_state \<Rightarrow> overlay \<Rightarrow> (exc + bool) \<times> overlay" where
  "process cfg modules ev js ms s =
     (if done_flag s then (Inr False, s)
      else
        (case process_body cfg modules ev js ms s of
           (Inl e, s1) \<Rightarrow> (Inl e, s1)
         | (Inr continue, s1) \<Rightarrow>
             (if \<not> continue then (Inr continue, s1\<lparr>done_flag := True\<rparr>)
              else (Inr continue, s1))))"

text \<open>
  A sequence of calls on one overlay: each call gets its own outside behaviour and polled
  states. A raise leaves the overlay as the call left it; the next call starts there.
\<close>

fun run_calls ::
  "pegasus \<Rightarrow> charm_class list \<Rightarrow> (env \<times> juju_state \<times> maas_state) list \<Rightarrow> overlay \<Rightarrow> overlay" where
  "run_calls cfg modules [] s = s"
| "run_calls cfg modules ((ev, js, ms) # calls) s =
     run_calls cfg modules calls (snd (process cfg modules ev js ms s))"

section \<open>NodeViewMode: the countdown and the poll callback\<close>

text \<open>\<open>self._target\<close> is either the controller overlay or the node view itself.\<close>

datatype target = TargetOverlay | TargetSelf

text \<open>
  The fields of \<open>NodeViewMode\<close> that \<open>tick\<close>, \<open>keypress\<close>, \<open>do_update\<close> and
  \<open>update_and_redraw\<close> use. \<open>timer\<close> is the number shown in "(Re-poll in N (s))", \<open>None\<close>
  while the text is still empty; \<open>loop_trace\<close> records the calls made on the main loop.
  The node list, the status text and the two URL texts are presentation and are left out.
\<close>

record node_view =
  poll_interval :: int
  ticks_left :: int
  timer :: "int option"
  target :: target
  controller_overlay :: overlay
  loop_trace :: "event list"

definition init_node_view :: "pegasus \<Rightarrow> node_view" where
  "init_node_view cfg =
     \<lparr> poll_interval = 10, ticks_left = 0, timer = None,
       target = TargetOverlay, controller_overlay = init_overlay cfg, loop_trace = [] \<rparr>"

definition tick :: "node_view \<Rightarrow> node_view" where
  "tick v =
     (let v1 = (if ticks_left v = 0
                then (v\<lparr>ticks_left := poll_interval v\<rparr>)
                       \<lparr>loop_trace := loop_trace v @ [RunAsync RefreshStates UpdateAndRedraw]\<rparr>
                else v);
          v2 = v1\<lparr>timer := Some (ticks_left v1)\<rparr>
      in v2\<lparr>ticks_left := ticks_left v2 - 1\<rparr>)"

definition keypress :: "string \<Rightarrow> node_view \<Rightarrow> node_view" where
  "keypress key v = (if key = ''f5'' then v\<lparr>ticks_left := 0\<rparr> else v)"

definition do_update ::
  "pegasus \<Rightarrow> charm_class list \<Rightarrow> env \<Rightarrow> juju_state \<Rightarrow> maas_state \<Rightarrow> node_view
     \<Rightarrow> (exc + unit) \<times> node_view" where
  "do_update cfg modules ev js ms v =
     (if target v = TargetOverlay then
        (case process cfg modules ev js ms (controller_overlay v) of
           (Inl e, ov) \<Rightarrow> (Inl e, v\<lparr>controller_overlay := ov\<rparr>)
         | (Inr continue_polling, ov) \<Rightarrow>
             (if continue_polling = False
              then (Inr (), v\<lparr>controller_overlay := ov, target := TargetSelf\<rparr>)
              else (Inr (), v\<lparr>controller_overlay := ov\<rparr>)))
      else (Inr (), v))"

text \<open>
  \<open>update_and_redraw(state)\<close>: \<open>state\<close> is what the bridge hands over, \<open>None\<close> when the
  poll raised, and unpacking \<open>None\<close> raises. \<open>draw_screen\<close> is the last statement.
\<close>

definition update_and_redraw ::
  "pegasus \<Rightarrow> charm_class list \<Rightarrow> env \<Rightarrow> (juju_state \<times> maas_state) option \<Rightarrow> node_view
     \<Rightarrow> (exc + unit) \<times> node_view" where
  "update_and_redraw cfg modules ev state v =
     (case state of
        None \<Rightarrow> (Inl TypeError, v)
      | Some (js, ms) \<Rightarrow>
          (case do_update cfg modules ev js ms v of
             (Inl e, v2) \<Rightarrow> (Inl e, v2)
           | (Inr u, v2) \<Rightarrow> (Inr (), v2\<lparr>loop_trace := loop_trace v2 @ [DrawScreen]\<rparr>)))"

section \<open>PegasusGUI.run\_async\<close>

text \<open>
  What a Python call can raise, as far as the two \<open>except Exception\<close> clauses of
  \<open>run_async\<close> tell it apart: an instance of \<open>Exception\<close>, or a \<open>BaseException\<close> that is
  not one (\<open>SystemExit\<close>, \<open>KeyboardInterrupt\<close>, \<open>GeneratorExit\<close>).
\<close>

datatype failure = ExceptionRaised | OtherRaised

text \<open>What running the blocking function does.\<close>

datatype 'r outcome = Returned 'r | Raises failure

text \<open>\<open>run_f\<close> runs on a worker thread, the pipe handler \<open>done\<close> on the loop thread.\<close>

datatype thread = Worker | Loop

datatype 'r bridge_event =
    Callback "'r option"
  | LogDebug
  | LogWarning
  | RemoveWatchPipe
  | ClosePipe

text \<open>
  One call of \<open>run_async\<close>: \<open>res\<close> is \<open>result['res']\<close> (\<open>None\<close> is Python's \<open>None\<close>),
  \<open>watched\<close> says that the loop still watches the pipe, \<open>unread\<close> counts the writes to
  \<open>write_fd\<close> that the loop has not read yet, \<open>bridge_log\<close> lists what was done and on
  which thread.
\<close>

record 'r bridge =
  res :: "'r option"
  watched :: bool
  unread :: nat
  bridge_log :: "(thread \<times> 'r bridge_event) list"

definition log_event :: "thread \<Rightarrow> 'r bridge_event \<Rightarrow> 'r bridge \<Rightarrow> 'r bridge" where
  "log_event th e b = b\<lparr>bridge_log := bridge_log b @ [(th, e)]\<rparr>"

text \<open>\<open>result = {'res': None}\<close> and \<open>write_fd = self.watch_pipe(done)\<close>.\<close>

definition new_bridge :: "'r bridge" where
  "new_bridge = \<lparr> res = None, watched = True, unread = 0, bridge_log = [] \<rparr>"

text \<open>
  The worker thread's \<open>run_f\<close>. The \<open>write\<close> follows the \<open>try\<close> statement: it is reached
  when \<open>f\<close> returns or raises an \<open>Exception\<close>, and it is skipped, with the log, when \<open>f\<close>
  raises anything else, which then ends the worker thread.
\<close>

definition run_f :: "'r option outcome \<Rightarrow> 'r bridge \<Rightarrow> failure option \<times> 'r bridge" where
  "run_f f b =
     (case f of
        Returned r \<Rightarrow> (None, (b\<lparr>res := r\<rparr>)\<lparr>unread := unread b + 1\<rparr>)
      | Raises ExceptionRaised \<Rightarrow>
          (None, (log_event Worker LogDebug b)\<lparr>unread := unread b + 1\<rparr>)
      | Raises OtherRaised \<Rightarrow> (Some OtherRaised, b))"

text \<open>
  The pipe handler \<open>done\<close>. \<open>callback r\<close> is \<open>None\<close> when the callback returns and the
  failure when it raises. An \<open>Exception\<close> is caught and logged; anything else leaves the
  handler after the \<open>finally\<close> block and reaches the loop.
\<close>

definition done_handler ::
  "('r option \<Rightarrow> failure option) \<Rightarrow> 'r bridge \<Rightarrow> failure option \<times> 'r bridge" where
  "done_handler callback b =
     (let b1 = log_event Loop (Callback (res b)) b;
          (out, b2) = (case callback (res b) of
                         None \<Rightarrow> (None, b1)
                       | Some ExceptionRaised \<Rightarrow> (None, log_event Loop LogWarning b1)
                       | Some OtherRaised \<Rightarrow> (Some OtherRaised, b1));
          b3 = log_event Loop ClosePipe (log_event Loop RemoveWatchPipe b2)
      in (out, b3\<lparr>watched := False\<rparr>))"

text \<open>
  The main loop's turn: when the watched pipe has unread data it reads it and calls the
  handler once.
\<close>

definition loop_turn ::
  "('r option \<Rightarrow> failure option) \<Rightarrow> 'r bridge \<Rightarrow> failure option \<times> 'r bridge" where
  "loop_turn callback b =
     (if watched b \<and> unread b > 0
      then done_handler callback (b\<lparr>unread := unread b - 1\<rparr>)
      else (None, b))"

text \<open>
  \<open>run_async(f, callback)\<close>: the worker runs \<open>run_f\<close>, then the loop takes its turn. The
  first component is what reaches the loop.
\<close>

definition run_async ::
  "'r option outcome \<Rightarrow> ('r option \<Rightarrow> failure option) \<Rightarrow> failure option \<times> 'r bridge" where
  "run_async f callback = loop_turn callback (snd (run_f f new_bridge))"

section \<open>Notions used in the statements\<close>

text \<open>The target that \<open>setup\<close> is given: an lxc container on the overlay's machine.\<close>

definition lxc_target :: "overlay \<Rightarrow> string" where
  "lxc_target s = (case machine s of None \<Rightarrow> [] | Some m \<Rightarrow> ''lxc:'' @ machine_id m)"

text \<open>The two tests of the loops: \<open>charm.name() in service_names\<close> and
  \<open>juju_state.service(charm.charm_name) is not None\<close>.\<close>

definition in_services :: "juju_state \<Rightarrow> charm_class \<Rightarrow> bool" where
  "in_services js c = (name c \<in> set (map service_name (services js)))"

definition service_up :: "juju_state \<Rightarrow> charm_class \<Rightarrow> bool" where
  "service_up js c = (service js (charm_name c) \<noteq> None)"

fun is_Run :: "event \<Rightarrow> bool" where
  "is_Run (Run cmd) = True"
| "is_Run e = False"

text \<open>The calls that one call of \<open>process\<close> made: what it added to the trace.\<close>

definition new_events :: "overlay \<Rightarrow> overlay \<Rightarrow> event list" where
  "new_events s s' = drop (length (trace s)) (trace s')"

subsection \<open>Concrete inputs\<close>

definition single_node :: pegasus where
  "single_node = \<lparr> MULTI_SYSTEM = False, SINGLE_SYSTEM = True \<rparr>"

definition multi_node :: pegasus where
  "multi_node = \<lparr> MULTI_SYSTEM = True, SINGLE_SYSTEM = False \<rparr>"

definition node1 :: machine where
  "node1 = \<lparr> machine_id = ''1'', agent_state = ''started'', dns_name = ''node1.maas'' \<rparr>"

definition mysql :: charm_class where
  "mysql = \<lparr> cls_ident = ''CharmMysql'', deploy_priority = 1,
             name = ''mysql'', charm_name = ''mysql'' \<rparr>"

definition keystone :: charm_class where
  "keystone = \<lparr> cls_ident = ''CharmKeystone'', deploy_priority = 2,
                name = ''keystone'', charm_name = ''keystone'' \<rparr>"

definition no_machines :: juju_state where
  "no_machines = \<lparr> services = [], machines_allocated = [] \<rparr>"

definition bare_node :: juju_state where
  "bare_node = \<lparr> services = [], machines_allocated = [node1] \<rparr>"

definition keystone_up :: juju_state where
  "keystone_up = \<lparr> services = [\<lparr> service_name = ''keystone'' \<rparr>],
                   machines_allocated = [node1] \<rparr>"

definition keystone_up_no_machine :: juju_state where
  "keystone_up_no_machine = \<lparr> services = [\<lparr> service_name = ''keystone'' \<rparr>],
                              machines_allocated = [] \<rparr>"

definition all_up :: juju_state where
  "all_up = \<lparr> services = [\<lparr> service_name = ''mysql'' \<rparr>, \<lparr> service_name = ''keystone'' \<rparr>],
              machines_allocated = [node1] \<rparr>"

definition maas_empty :: maas_state where
  "maas_empty = \<lparr> maas_machines_allocated = [] \<rparr>"

definition maas_one :: maas_state where
  "maas_one = \<lparr> maas_machines_allocated = [node1] \<rparr>"

definition all_fine :: env where
  "all_fine = \<lparr> setup_raises = (\<lambda>c t. False), set_relations_raises = (\<lambda>c. False),
                post_proc_raises = (\<lambda>c. False), add_machine_raises = False,
                run_raises = (\<lambda>cmd. False) \<rparr>"

definition setup_fails :: env where
  "setup_fails = \<lparr> setup_raises = (\<lambda>c t. True), set_relations_raises = (\<lambda>c. False),
                   post_proc_raises = (\<lambda>c. False), add_machine_raises = False,
                   run_raises = (\<lambda>cmd. False) \<rparr>"


definition node2 :: machine where
  "node2 = \<lparr> machine_id = ''2'', agent_state = ''pending'', dns_name = ''node2.maas'' \<rparr>"

definition keystone_up_pending :: juju_state where
  "keystone_up_pending = \<lparr> services = [\<lparr> service_name = ''keystone'' \<rparr>],
                           machines_allocated = [node2] \<rparr>"

definition scp_fails :: env where
  "scp_fails = \<lparr> setup_raises = (\<lambda>c t. False), set_relations_raises = (\<lambda>c. False),
                 post_proc_raises = (\<lambda>c. False), add_machine_raises = False,
                 run_raises = (\<lambda>cmd. cmd = scp_cmd ''node1.maas'') \<rparr>"

definition add_machine_fails :: env where
  "add_machine_fails = \<lparr> setup_raises = (\<lambda>c t. False), set_relations_raises = (\<lambda>c. False),
                         post_proc_raises = (\<lambda>c. False), add_machine_raises = True,
                         run_raises = (\<lambda>cmd. False) \<rparr>"

subsection \<open>The invariant of the overlay\<close>

text \<open>What holds of an overlay after any sequence of calls.\<close>

definition overlay_inv :: "charm_class list \<Rightarrow> overlay \<Rightarrow> bool" where
  "overlay_inv modules s =
     (set (finalized_charm_classes s) \<subseteq> set (deployed_charm_classes s) \<and>
      set (deployed_charm_classes s) \<subseteq> set modules \<and>
      (distinct modules \<longrightarrow>
         distinct (deployed_charm_classes s) \<and> distinct (finalized_charm_classes s)) \<and>
      (machine s = None \<longrightarrow>
         deployed_charm_classes s = [] \<and> \<not> done_flag s \<and> \<not> single_net_configured s) \<and>
      (done_flag s \<longrightarrow> length (finalized_charm_classes s) = length modules))"

subsection \<open>Hooks that raise\<close>

text \<open>
  Whether the call recorded by an event raised, and whether the overlay has marked the class
  of a hook call: deployed for \<open>setup\<close>, finalized for the two relation hooks.
\<close>

fun raised_hook :: "env \<Rightarrow> event \<Rightarrow> bool" where
  "raised_hook ev (Setup c t) = setup_raises ev c t"
| "raised_hook ev (SetRelations c) = set_relations_raises ev c"
| "raised_hook ev (PostProc c) = post_proc_raises ev c"
| "raised_hook ev e = False"

fun marked :: "overlay \<Rightarrow> event \<Rightarrow> bool" where
  "marked s (Setup c t) = (c \<in> set (deployed_charm_classes s))"
| "marked s (SetRelations c) = (c \<in> set (finalized_charm_classes s))"
| "marked s (PostProc c) = (c \<in> set (finalized_charm_classes s))"
| "marked s e = False"

section \<open>Properties of the loops and of \<open>process\<close>\<close>

lemma emit_simps [simp]:
  "done_flag (emit e s) = done_flag s"
  "machine (emit e s) = machine s"
  "deployed_charm_classes (emit e s) = deployed_charm_classes s"
  "finalized_charm_classes (emit e s) = finalized_charm_classes s"
  "single_net_configured (emit e s) = single_net_configured s"
  "info_text (emit e s) = info_text s"
  "trace (emit e s) = trace s @ [e]"
  by (simp_all add: emit_def)

lemma lxc_target_simps [simp]:
  "lxc_target (emit e s) = lxc_target s"
  "lxc_target (s\<lparr>deployed_charm_classes := d\<rparr>) = lxc_target s"
  "lxc_target (s\<lparr>finalized_charm_classes := f\<rparr>) = lxc_target s"
  "lxc_target (s\<lparr>info_text := i\<rparr>) = lxc_target s"
  "lxc_target (s\<lparr>done_flag := b\<rparr>) = lxc_target s"
  by (simp_all add: lxc_target_def)

lemma deploy_loop_Cons:
  "deploy_loop ev js (c # cs) s =
     (if in_services js c
      then deploy_loop ev js cs (s\<lparr>deployed_charm_classes := deployed_charm_classes s @ [c]\<rparr>)
      else if machine s = None then (Inl AttributeError, s)
      else if setup_raises ev c (lxc_target s)
        then (Inl HookFailure, emit (Setup c (lxc_target s)) s)
      else deploy_loop ev js cs
             ((emit (Setup c (lxc_target s)) s)
                \<lparr>deployed_charm_classes := deployed_charm_classes s @ [c]\<rparr>))"
  by (simp add: in_services_def lxc_target_def Let_def split: option.splits)

lemma finalize_loop_Cons:
  "finalize_loop ev js (c # cs) s =
     (if \<not> service_up js c then finalize_loop ev js cs s
      else if set_relations_raises ev c then (Inl HookFailure, emit (SetRelations c) s)
      else if post_proc_raises ev c
        then (Inl HookFailure, emit (PostProc c) (emit (SetRelations c) s))
      else finalize_loop ev js cs
             ((emit (PostProc c) (emit (SetRelations c) s))
                \<lparr>finalized_charm_classes := finalized_charm_classes s @ [c]\<rparr>))"
  by (simp add: service_up_def Let_def del: not_None_eq)

lemmas loop_simps = deploy_loop.simps(1) finalize_loop.simps(1) deploy_loop_Cons finalize_loop_Cons

declare deploy_loop.simps [simp del] finalize_loop.simps [simp del]

text \<open>What a loop leaves alone.\<close>

lemma deploy_loop_frame:
  "deploy_loop ev js cs s = (r, s') \<Longrightarrow>
     machine s' = machine s \<and> done_flag s' = done_flag s \<and>
     finalized_charm_classes s' = finalized_charm_classes s \<and>
     single_net_configured s' = single_net_configured s \<and> info_text s' = info_text s"
proof (induction cs arbitrary: s)
  case Nil
  then show ?case by (simp add: loop_simps)
next
  case (Cons c cs)
  from Cons.prems show ?case
    by (simp add: loop_simps split: if_splits) (auto dest!: Cons.IH)
qed

lemma finalize_loop_frame:
  "finalize_loop ev js cs s = (r, s') \<Longrightarrow>
     machine s' = machine s \<and> done_flag s' = done_flag s \<and>
     deployed_charm_classes s' = deployed_charm_classes s \<and>
     single_net_configured s' = single_net_configured s \<and> info_text s' = info_text s"
proof (induction cs arbitrary: s)
  case Nil
  then show ?case by (simp add: loop_simps)
next
  case (Cons c cs)
  from Cons.prems show ?case
    by (simp add: loop_simps split: if_splits) (auto dest!: Cons.IH)
qed

lemma deploy_loop_char:
  "deploy_loop ev js cs s = (r, s') \<Longrightarrow> machine s \<noteq> None \<Longrightarrow>
     \<exists>k \<le> length cs.
        deployed_charm_classes s' = deployed_charm_classes s @ take k cs \<and>
        (r = Inr () \<longrightarrow> k = length cs) \<and>
        (r \<noteq> Inr () \<longrightarrow> r = Inl HookFailure \<and> k < length cs \<and> \<not> in_services js (cs ! k) \<and>
           setup_raises ev (cs ! k) (lxc_target s)) \<and>
        (\<exists>evs. trace s' = trace s @ evs \<and>
           (\<forall>e \<in> set evs. \<exists>c \<in> set cs. \<not> in_services js c \<and> e = Setup c (lxc_target s)))"
proof (induction cs arbitrary: s)
  case Nil
  then show ?case by (simp add: loop_simps)
next
  case (Cons c cs)
  let ?t = "lxc_target s"
  consider (skip) "in_services js c"
    | (raise) "\<not> in_services js c" "setup_raises ev c ?t"
    | (ok) "\<not> in_services js c" "\<not> setup_raises ev c ?t"
    by blast
  then show ?case
  proof cases
    case skip
    let ?s1 = "s\<lparr>deployed_charm_classes := deployed_charm_classes s @ [c]\<rparr>"
    from skip Cons.prems have run: "deploy_loop ev js cs ?s1 = (r, s')" and m: "machine ?s1 \<noteq> None"
      by (simp_all add: loop_simps)
    from Cons.IH[OF run m] obtain k evs where k: "k \<le> length cs"
      "deployed_charm_classes s' = (deployed_charm_classes s @ [c]) @ take k cs"
      "r = Inr () \<longrightarrow> k = length cs"
      "r \<noteq> Inr () \<longrightarrow> r = Inl HookFailure \<and> k < length cs \<and> \<not> in_services js (cs ! k) \<and>
           setup_raises ev (cs ! k) ?t"
      "trace s' = trace s @ evs"
      "\<forall>e \<in> set evs. \<exists>c \<in> set cs. \<not> in_services js c \<and> e = Setup c ?t"
      by auto
    show ?thesis
      apply (rule exI[of _ "Suc k"])
      using k by auto
  next
    case raise
    with Cons.prems have "r = Inl HookFailure" "s' = emit (Setup c ?t) s"
      by (simp_all add: loop_simps)
    with raise show ?thesis
      by (intro exI[of _ 0]) auto
  next
    case ok
    let ?s1 = "(emit (Setup c ?t) s)\<lparr>deployed_charm_classes := deployed_charm_classes s @ [c]\<rparr>"
    from ok Cons.prems have run: "deploy_loop ev js cs ?s1 = (r, s')" and m: "machine ?s1 \<noteq> None"
      by (simp_all add: loop_simps)
    from Cons.IH[OF run m] obtain k evs where k: "k \<le> length cs"
      "deployed_charm_classes s' = (deployed_charm_classes s @ [c]) @ take k cs"
      "r = Inr () \<longrightarrow> k = length cs"
      "r \<noteq> Inr () \<longrightarrow> r = Inl HookFailure \<and> k < length cs \<and> \<not> in_services js (cs ! k) \<and>
           setup_raises ev (cs ! k) ?t"
      "trace s' = (trace s @ [Setup c ?t]) @ evs"
      "\<forall>e \<in> set evs. \<exists>c \<in> set cs. \<not> in_services js c \<and> e = Setup c ?t"
      by auto
    show ?thesis
      apply (rule exI[of _ "Suc k"])
      using k ok by auto
  qed
qed

lemma finalize_loop_char:
  "finalize_loop ev js cs s = (r, s') \<Longrightarrow>
     \<exists>k \<le> length cs.
        finalized_charm_classes s' = finalized_charm_classes s @ filter (service_up js) (take k cs) \<and>
        (r = Inr () \<longrightarrow> k = length cs) \<and>
        (r \<noteq> Inr () \<longrightarrow> r = Inl HookFailure \<and> k < length cs \<and> service_up js (cs ! k) \<and>
           (set_relations_raises ev (cs ! k) \<or> post_proc_raises ev (cs ! k))) \<and>
        (\<exists>evs. trace s' = trace s @ evs \<and>
           (\<forall>e \<in> set evs. \<exists>c \<in> set cs. service_up js c \<and>
               (e = SetRelations c \<or> e = PostProc c)))"
proof (induction cs arbitrary: s)
  case Nil
  then show ?case by (simp add: loop_simps)
next
  case (Cons c cs)
  consider (skip) "\<not> service_up js c"
    | (raise1) "service_up js c" "set_relations_raises ev c"
    | (raise2) "service_up js c" "\<not> set_relations_raises ev c" "post_proc_raises ev c"
    | (ok) "service_up js c" "\<not> set_relations_raises ev c" "\<not> post_proc_raises ev c"
    by blast
  then show ?case
  proof cases
    case skip
    with Cons.prems have run: "finalize_loop ev js cs s = (r, s')"
      by (simp add: loop_simps)
    from Cons.IH[OF run] obtain k evs where k: "k \<le> length cs"
      "finalized_charm_classes s' = finalized_charm_classes s @ filter (service_up js) (take k cs)"
      "r = Inr () \<longrightarrow> k = length cs"
      "r \<noteq> Inr () \<longrightarrow> r = Inl HookFailure \<and> k < length cs \<and> service_up js (cs ! k) \<and>
           (set_relations_raises ev (cs ! k) \<or> post_proc_raises ev (cs ! k))"
      "trace s' = trace s @ evs"
      "\<forall>e \<in> set evs. \<exists>c \<in> set cs. service_up js c \<and> (e = SetRelations c \<or> e = PostProc c)"
      by auto
    show ?thesis
      apply (rule exI[of _ "Suc k"])
      using k skip by auto
  next
    case raise1
    with Cons.prems have "r = Inl HookFailure" "s' = emit (SetRelations c) s"
      by (simp_all add: loop_simps)
    with raise1 show ?thesis
      by (intro exI[of _ 0]) auto
  next
    case raise2
    with Cons.prems have "r = Inl HookFailure" "s' = emit (PostProc c) (emit (SetRelations c) s)"
      by (simp_all add: loop_simps)
    with raise2 show ?thesis
      by (intro exI[of _ 0]) auto
  next
    case ok
    let ?s1 = "(emit (PostProc c) (emit (SetRelations c) s))
                 \<lparr>finalized_charm_classes := finalized_charm_classes s @ [c]\<rparr>"
    from ok Cons.prems have run: "finalize_loop ev js cs ?s1 = (r, s')"
      by (simp add: loop_simps)
    from Cons.IH[OF run] obtain k evs where k: "k \<le> length cs"
      "finalized_charm_classes s' =
         (finalized_charm_classes s @ [c]) @ filter (service_up js) (take k cs)"
      "r = Inr () \<longrightarrow> k = length cs"
      "r \<noteq> Inr () \<longrightarrow> r = Inl HookFailure \<and> k < length cs \<and> service_up js (cs ! k) \<and>
           (set_relations_raises ev (cs ! k) \<or> post_proc_raises ev (cs ! k))"
      "trace s' = (trace s @ [SetRelations c, PostProc c]) @ evs"
      "\<forall>e \<in> set evs. \<exists>c \<in> set cs. service_up js c \<and> (e = SetRelations c \<or> e = PostProc c)"
      by auto
    show ?thesis
      apply (rule exI[of _ "Suc k"])
      using k ok by auto
  qed
qed

lemma configure_lxc_network_char:
  assumes c: "configure_lxc_network ev s = (r, s')" and m: "machine s = Some m"
  shows "done_flag s' = done_flag s \<and> machine s' = machine s \<and>
     deployed_charm_classes s' = deployed_charm_classes s \<and>
     finalized_charm_classes s' = finalized_charm_classes s \<and>
     (r = Inr () \<longrightarrow> single_net_configured s' \<and>
        \<not> run_raises ev (scp_cmd (dns_name m)) \<and> \<not> run_raises ev (ssh_cmd (dns_name m)) \<and>
        trace s' = trace s @ [Run (scp_cmd (dns_name m)), Run (ssh_cmd (dns_name m))]) \<and>
     (r \<noteq> Inr () \<longrightarrow> r = Inl RunFailure \<and>
        single_net_configured s' = single_net_configured s \<and>
        ((run_raises ev (scp_cmd (dns_name m)) \<and>
            trace s' = trace s @ [Run (scp_cmd (dns_name m))]) \<or>
         (\<not> run_raises ev (scp_cmd (dns_name m)) \<and> run_raises ev (ssh_cmd (dns_name m)) \<and>
            trace s' = trace s @ [Run (scp_cmd (dns_name m)), Run (ssh_cmd (dns_name m))])))"
  using c m by (auto simp: configure_lxc_network_def Let_def split: if_splits)

lemma get_controller_machine_char:
  "get_controller_machine ev cfg js ms s = (r, s1) \<Longrightarrow>
     done_flag s1 = done_flag s \<and> machine s1 = machine s \<and>
     deployed_charm_classes s1 = deployed_charm_classes s \<and>
     finalized_charm_classes s1 = finalized_charm_classes s \<and>
     single_net_configured s1 = single_net_configured s \<and>
     ((trace s1 = trace s \<and> (\<exists>mo. r = Inr mo)) \<or>
      (trace s1 = trace s @ [AddMachine] \<and>
         (if add_machine_raises ev then r = Inl ClientFailure else r = Inr None)))"
  by (auto simp: get_controller_machine_def get_started_machine_def Let_def split: if_splits)

lemma acquire_controller_char:
  assumes "acquire_controller ev cfg js ms s = (r, s1)"
  shows "done_flag s1 = done_flag s \<and>
     deployed_charm_classes s1 = deployed_charm_classes s \<and>
     finalized_charm_classes s1 = finalized_charm_classes s \<and>
     (machine s \<noteq> None \<longrightarrow> r = Inr None \<and> s1 = s) \<and>
     (r = Inr None \<or> r = Inr (Some True) \<or> r = Inl ClientFailure \<or> r = Inl RunFailure) \<and>
     (r = Inr None \<longrightarrow> machine s1 \<noteq> None) \<and>
     (r = Inr (Some True) \<longrightarrow> machine s1 = None) \<and>
     (r = Inl ClientFailure \<longrightarrow> machine s1 = None \<and> add_machine_raises ev) \<and>
     (r = Inl RunFailure \<longrightarrow> machine s1 \<noteq> None \<and> (\<exists>cmd. run_raises ev cmd)) \<and>
     (\<exists>evs. trace s1 = trace s @ evs \<and> (\<forall>e \<in> set evs. e = AddMachine \<or> is_Run e))"
proof (cases "machine s = None")
  case False
  with assms show ?thesis by (auto simp: acquire_controller_def)
next
  case True
  note mn = this
  obtain rg s0 where g: "get_controller_machine ev cfg js ms s = (rg, s0)"
    by (cases "get_controller_machine ev cfg js ms s")
  note gc = get_controller_machine_char[OF g]
  show ?thesis
  proof (cases rg)
    case (Inl e)
    with assms mn g have "r = Inl e" "s1 = s0" by (simp_all add: acquire_controller_def)
    with gc mn Inl show ?thesis by (auto split: if_splits)
  next
    case (Inr mo)
    with gc have tr: "trace s0 = trace s \<or> trace s0 = trace s @ [AddMachine]"
      by (auto split: if_splits)
    show ?thesis
    proof (cases mo)
      case None
      with assms mn g Inr have "r = Inr (Some True)" "s1 = s0\<lparr>machine := None\<rparr>"
        by (simp_all add: acquire_controller_def)
      with gc mn tr show ?thesis by auto
    next
      case (Some m)
      let ?s2 = "s0\<lparr>machine := Some m\<rparr>"
      from gc Inr Some have tr0: "trace s0 = trace s" by (auto split: if_splits)
      show ?thesis
      proof (cases "SINGLE_SYSTEM cfg \<and> \<not> single_net_configured s0")
        case True
        obtain rc s3 where c: "configure_lxc_network ev ?s2 = (rc, s3)"
          by (cases "configure_lxc_network ev ?s2")
        have m2: "machine ?s2 = Some m" by simp
        note cc = configure_lxc_network_char[OF c m2]
        show ?thesis
        proof (cases rc)
          case (Inl e)
          with assms mn g \<open>rg = Inr mo\<close> Some True c have "r = Inl e" "s1 = s3"
            by (simp_all add: acquire_controller_def)
          with cc Inl gc tr0 mn show ?thesis by auto
        next
          case (Inr u)
          with assms mn g \<open>rg = Inr mo\<close> Some True c have "r = Inr None" "s1 = s3"
            by (simp_all add: acquire_controller_def)
          with cc Inr gc tr0 mn show ?thesis by auto
        qed
      next
        case False
        with assms mn g Inr Some have "r = Inr None" "s1 = ?s2"
          by (auto simp add: acquire_controller_def)
        with gc tr0 mn show ?thesis by auto
      qed
    qed
  qed
qed

lemma deploy_step_char:
  assumes "deploy_step ev js cc s = (r, s')" "machine s \<noteq> None"
  defines "U \<equiv> filter (\<lambda>c. c \<notin> set (deployed_charm_classes s)) cc"
  shows "machine s' = machine s \<and> done_flag s' = done_flag s \<and>
     finalized_charm_classes s' = finalized_charm_classes s \<and>
     single_net_configured s' = single_net_configured s \<and>
     (\<exists>k \<le> length U.
        deployed_charm_classes s' = deployed_charm_classes s @ take k U \<and>
        (r = Inr () \<longrightarrow> k = length U) \<and>
        (r \<noteq> Inr () \<longrightarrow> r = Inl HookFailure \<and> k < length U \<and> \<not> in_services js (U ! k) \<and>
           setup_raises ev (U ! k) (lxc_target s)) \<and>
        (\<exists>evs. trace s' = trace s @ evs \<and>
           (\<forall>e \<in> set evs. \<exists>c \<in> set U. \<not> in_services js c \<and> e = Setup c (lxc_target s))))"
proof (cases "U = []")
  case True
  with assms(1) have "r = Inr ()" "s' = s" by (simp_all add: deploy_step_def U_def)
  with True show ?thesis by simp
next
  case False
  let ?s0 = "s\<lparr>info_text := ''Deploying charms''\<rparr>"
  from False assms(1) have run: "deploy_loop ev js U ?s0 = (r, s')"
    by (simp add: deploy_step_def U_def Let_def)
  from assms(2) have m: "machine ?s0 \<noteq> None" by simp
  from deploy_loop_frame[OF run] deploy_loop_char[OF run m] show ?thesis by simp
qed

lemma finalize_step_char:
  assumes "finalize_step ev js s = (r, s')"
  defines "U \<equiv> filter (\<lambda>c. c \<notin> set (finalized_charm_classes s)) (deployed_charm_classes s)"
  shows "machine s' = machine s \<and> done_flag s' = done_flag s \<and>
     deployed_charm_classes s' = deployed_charm_classes s \<and>
     single_net_configured s' = single_net_configured s \<and>
     (\<exists>k \<le> length U.
        finalized_charm_classes s' = finalized_charm_classes s @ filter (service_up js) (take k U) \<and>
        (r = Inr () \<longrightarrow> k = length U) \<and>
        (r \<noteq> Inr () \<longrightarrow> r = Inl HookFailure \<and> k < length U \<and> service_up js (U ! k) \<and>
           (set_relations_raises ev (U ! k) \<or> post_proc_raises ev (U ! k))) \<and>
        (\<exists>evs. trace s' = trace s @ evs \<and>
           (\<forall>e \<in> set evs. \<exists>c \<in> set U. service_up js c \<and>
               (e = SetRelations c \<or> e = PostProc c))))"
proof (cases "U = []")
  case True
  with assms(1) have "r = Inr ()" "s' = s" by (simp_all add: finalize_step_def U_def)
  with True show ?thesis by simp
next
  case False
  let ?s0 = "s\<lparr>info_text := ''Setting charm relations''\<rparr>"
  from False assms(1) have run: "finalize_loop ev js U ?s0 = (r, s')"
    by (simp add: finalize_step_def U_def Let_def)
  from finalize_loop_frame[OF run] finalize_loop_char[OF run] show ?thesis by simp
qed

lemma process_done: "done_flag s \<Longrightarrow> process cfg modules ev js ms s = (Inr False, s)"
  by (simp add: process_def)

lemma process_cases [consumes 2, case_names acquire_raise wait deploy_raise finalize_raise continue finish]:
  assumes p: "process cfg modules ev js ms s = (r, s')" and nd: "\<not> done_flag s"
  obtains
    (acquire_raise) e where "acquire_controller ev cfg js ms s = (Inl e, s')" "r = Inl e"
  | (wait) "acquire_controller ev cfg js ms s = (Inr (Some True), s')" "r = Inr True"
  | (deploy_raise) s1 e where
      "acquire_controller ev cfg js ms s = (Inr None, s1)"
      "deploy_step ev js (sort_key deploy_priority modules) s1 = (Inl e, s')" "r = Inl e"
  | (finalize_raise) s1 s2 e where
      "acquire_controller ev cfg js ms s = (Inr None, s1)"
      "deploy_step ev js (sort_key deploy_priority modules) s1 = (Inr (), s2)"
      "finalize_step ev js s2 = (Inl e, s')" "r = Inl e"
  | (continue) s1 s2 where
      "acquire_controller ev cfg js ms s = (Inr None, s1)"
      "deploy_step ev js (sort_key deploy_priority modules) s1 = (Inr (), s2)"
      "finalize_step ev js s2 = (Inr (), s')"
      "length (finalized_charm_classes s') \<noteq> length modules" "r = Inr True"
  | (finish) s1 s2 s3 where
      "acquire_controller ev cfg js ms s = (Inr None, s1)"
      "deploy_step ev js (sort_key deploy_priority modules) s1 = (Inr (), s2)"
      "finalize_step ev js s2 = (Inr (), s3)"
      "length (finalized_charm_classes s3) = length modules" "r = Inr False"
      "s' = s3\<lparr>done_flag := True\<rparr>"
proof -
  obtain ra s1 where a: "acquire_controller ev cfg js ms s = (ra, s1)"
    by (cases "acquire_controller ev cfg js ms s")
  from acquire_controller_char[OF a]
  have ra: "ra = Inr None \<or> ra = Inr (Some True) \<or> (\<exists>e. ra = Inl e)" by auto
  consider (t) "ra = Inr (Some True)" | (l) e where "ra = Inl e" | (n) "ra = Inr None"
    using ra by auto
  then show thesis
  proof cases
    case t
    with p nd a have "r = Inr True" "s' = s1"
      by (simp_all add: process_def process_body_def)
    with a t wait show thesis by simp
  next
    case (l e)
    with p nd a have "r = Inl e" "s' = s1"
      by (simp_all add: process_def process_body_def)
    with a l acquire_raise show thesis by simp
  next
    case n
    note ra' = this
    obtain rd s2 where d: "deploy_step ev js (sort_key deploy_priority modules) s1 = (rd, s2)"
      by (cases "deploy_step ev js (sort_key deploy_priority modules) s1")
    show thesis
    proof (cases rd)
      case (Inl e)
      with p nd a ra' d have "r = Inl e" "s' = s2"
        by (simp_all add: process_def process_body_def)
      with a ra' d Inl deploy_raise show thesis by simp
    next
      case (Inr u)
      obtain rf s3 where f: "finalize_step ev js s2 = (rf, s3)"
        by (cases "finalize_step ev js s2")
      show thesis
      proof (cases rf)
        case (Inl e)
        with p nd a ra' d Inr f have "r = Inl e" "s' = s3"
          by (simp_all add: process_def process_body_def)
        with a ra' d Inr f Inl finalize_raise show thesis by simp
      next
        case (Inr v)
        note rf = this
        show thesis
        proof (cases "length (finalized_charm_classes s3) = length modules")
          case True
          with p nd a ra' d \<open>rd = Inr u\<close> f rf have "r = Inr False" "s' = s3\<lparr>done_flag := True\<rparr>"
            by (simp_all add: process_def process_body_def)
          with a ra' d \<open>rd = Inr u\<close> f rf True finish show thesis by simp
        next
          case False
          with p nd a ra' d \<open>rd = Inr u\<close> f rf have "r = Inr True" "s' = s3"
            by (simp_all add: process_def process_body_def)
          with a ra' d \<open>rd = Inr u\<close> f rf False continue show thesis by simp
        qed
      qed
    qed
  qed
qed

lemma nth_notin_take: "distinct xs \<Longrightarrow> k < length xs \<Longrightarrow> xs ! k \<notin> set (take k xs)"
  by (metis distinct_take id_take_nth_drop not_distinct_conv_prefix append_Cons append_Nil
      distinct.simps(2) distinct_append in_set_conv_decomp)

lemma process_frame:
  assumes p: "process cfg modules ev js ms s = (r, s')"
  shows "(machine s \<noteq> None \<longrightarrow> machine s' = machine s) \<and>
         (done_flag s' \<longleftrightarrow> done_flag s \<or> r = Inr False) \<and>
         (\<not> done_flag s \<and> r = Inr False \<longrightarrow>
            machine s' \<noteq> None \<and> length (finalized_charm_classes s') = length modules) \<and>
         (r = Inr True \<and> machine s' \<noteq> None \<longrightarrow>
            length (finalized_charm_classes s') \<noteq> length modules) \<and>
         (\<forall>e. r = Inl e \<longrightarrow> e = HookFailure \<or> e = ClientFailure \<or> e = RunFailure) \<and>
         (r = Inl HookFailure \<or> r = Inl RunFailure \<longrightarrow> machine s' \<noteq> None) \<and>
         (r = Inl ClientFailure \<longrightarrow> machine s = None \<and> machine s' = None)"
proof (cases "done_flag s")
  case True
  with p show ?thesis by (auto simp add: process_def)
next
  case False
  from p False show ?thesis
  proof (cases rule: process_cases)
    case (acquire_raise e)
    from acquire_controller_char[OF acquire_raise(1)] acquire_raise(2) False show ?thesis by auto
  next
    case wait
    from acquire_controller_char[OF wait(1)] wait(2) False show ?thesis by auto
  next
    case (deploy_raise s1 e)
    from acquire_controller_char[OF deploy_raise(1)] have m1: "machine s1 \<noteq> None"
      and f1: "done_flag s1 = done_flag s" "machine s \<noteq> None \<longrightarrow> s1 = s" by auto
    from deploy_step_char[OF deploy_raise(2) m1] deploy_raise(3) m1 f1 False
    show ?thesis by auto
  next
    case (finalize_raise s1 s2 e)
    from acquire_controller_char[OF finalize_raise(1)] have m1: "machine s1 \<noteq> None"
      and f1: "done_flag s1 = done_flag s" "machine s \<noteq> None \<longrightarrow> s1 = s" by auto
    from deploy_step_char[OF finalize_raise(2) m1] have
      f2: "machine s2 = machine s1" "done_flag s2 = done_flag s1" by auto
    from finalize_step_char[OF finalize_raise(3)] finalize_raise(4) m1 f1 f2 False
    show ?thesis by auto
  next
    case (continue s1 s2)
    from acquire_controller_char[OF continue(1)] have m1: "machine s1 \<noteq> None"
      and f1: "done_flag s1 = done_flag s" "machine s \<noteq> None \<longrightarrow> s1 = s" by auto
    from deploy_step_char[OF continue(2) m1] have
      f2: "machine s2 = machine s1" "done_flag s2 = done_flag s1" by auto
    from finalize_step_char[OF continue(3)] have
      f3: "machine s' = machine s2" "done_flag s' = done_flag s2" by auto
    from continue(4,5) m1 f1 f2 f3 False show ?thesis by auto
  next
    case (finish s1 s2 s3)
    from acquire_controller_char[OF finish(1)] have m1: "machine s1 \<noteq> None"
      and f1: "done_flag s1 = done_flag s" "machine s \<noteq> None \<longrightarrow> s1 = s" by auto
    from deploy_step_char[OF finish(2) m1] have
      f2: "machine s2 = machine s1" "done_flag s2 = done_flag s1" by auto
    from finalize_step_char[OF finish(3)] have
      f3: "machine s3 = machine s2" "done_flag s3 = done_flag s2" by auto
    from finish(4,5,6) m1 f1 f2 f3 False show ?thesis by auto
  qed
qed

lemma deploy_step_growth:
  assumes d: "deploy_step ev js (sort_key deploy_priority modules) s = (r, s')"
    and m: "machine s \<noteq> None"
  shows "\<exists>ds. deployed_charm_classes s' = deployed_charm_classes s @ ds \<and>
           set ds \<subseteq> set modules \<and> set ds \<inter> set (deployed_charm_classes s) = {} \<and>
           (distinct modules \<longrightarrow> distinct ds) \<and>
           (\<forall>e. r = Inl e \<longrightarrow> (\<exists>c \<in> set modules. c \<notin> set (deployed_charm_classes s) \<and>
               \<not> in_services js c \<and> setup_raises ev c (lxc_target s) \<and>
               (distinct modules \<longrightarrow> c \<notin> set ds)))"
proof -
  let ?U = "filter (\<lambda>c. c \<notin> set (deployed_charm_classes s)) (sort_key deploy_priority modules)"
  from deploy_step_char[OF d m] obtain k where k: "k \<le> length ?U"
    "deployed_charm_classes s' = deployed_charm_classes s @ take k ?U"
    "r \<noteq> Inr () \<longrightarrow> r = Inl HookFailure \<and> k < length ?U \<and> \<not> in_services js (?U ! k) \<and>
           setup_raises ev (?U ! k) (lxc_target s)"
    by auto
  have sub: "set (take k ?U) \<subseteq> set ?U" by (rule set_take_subset)
  have U: "set ?U \<subseteq> set modules" "set ?U \<inter> set (deployed_charm_classes s) = {}" by auto
  have dU: "distinct modules \<Longrightarrow> distinct ?U" by simp
  have raise: "\<exists>c \<in> set modules. c \<notin> set (deployed_charm_classes s) \<and>
               \<not> in_services js c \<and> setup_raises ev c (lxc_target s) \<and>
               (distinct modules \<longrightarrow> c \<notin> set (take k ?U))" if "r = Inl e" for e
  proof -
    from that k(3) have kk: "k < length ?U" "\<not> in_services js (?U ! k)"
      "setup_raises ev (?U ! k) (lxc_target s)" by auto
    from kk(1) have mem: "?U ! k \<in> set ?U" by (rule nth_mem)
    with U have "?U ! k \<in> set modules" "?U ! k \<notin> set (deployed_charm_classes s)" by auto
    moreover have "distinct modules \<longrightarrow> ?U ! k \<notin> set (take k ?U)"
      using nth_notin_take[OF dU kk(1)] by simp
    ultimately show ?thesis using kk by blast
  qed
  show ?thesis
    apply (rule exI[of _ "take k ?U"])
    using k(2) sub U dU raise by (auto dest: distinct_take)
qed

lemma finalize_step_growth:
  assumes f: "finalize_step ev js s = (r, s')"
  shows "\<exists>fs. finalized_charm_classes s' = finalized_charm_classes s @ fs \<and>
           set fs \<subseteq> set (deployed_charm_classes s) \<and>
           set fs \<inter> set (finalized_charm_classes s) = {} \<and>
           (distinct (deployed_charm_classes s) \<longrightarrow> distinct fs) \<and>
           (\<forall>c \<in> set fs. service_up js c) \<and>
           (\<forall>e. r = Inl e \<longrightarrow> (\<exists>c \<in> set (deployed_charm_classes s).
               c \<notin> set (finalized_charm_classes s) \<and> service_up js c \<and>
               (set_relations_raises ev c \<or> post_proc_raises ev c) \<and>
               (distinct (deployed_charm_classes s) \<longrightarrow> c \<notin> set fs)))"
proof -
  let ?U = "filter (\<lambda>c. c \<notin> set (finalized_charm_classes s)) (deployed_charm_classes s)"
  from finalize_step_char[OF f] obtain k where k: "k \<le> length ?U"
    "finalized_charm_classes s' = finalized_charm_classes s @ filter (service_up js) (take k ?U)"
    "r \<noteq> Inr () \<longrightarrow> r = Inl HookFailure \<and> k < length ?U \<and> service_up js (?U ! k) \<and>
           (set_relations_raises ev (?U ! k) \<or> post_proc_raises ev (?U ! k))"
    by auto
  let ?fs = "filter (service_up js) (take k ?U)"
  have sub: "set ?fs \<subseteq> set ?U" using set_take_subset[of k ?U] by auto
  have U: "set ?U \<subseteq> set (deployed_charm_classes s)"
    "set ?U \<inter> set (finalized_charm_classes s) = {}" by auto
  have dU: "distinct (deployed_charm_classes s) \<Longrightarrow> distinct ?U" by simp
  have raise: "\<exists>c \<in> set (deployed_charm_classes s).
               c \<notin> set (finalized_charm_classes s) \<and> service_up js c \<and>
               (set_relations_raises ev c \<or> post_proc_raises ev c) \<and>
               (distinct (deployed_charm_classes s) \<longrightarrow> c \<notin> set ?fs)" if "r = Inl e" for e
  proof -
    from that k(3) have kk: "k < length ?U" "service_up js (?U ! k)"
      "set_relations_raises ev (?U ! k) \<or> post_proc_raises ev (?U ! k)" by auto
    from kk(1) have mem: "?U ! k \<in> set ?U" by (rule nth_mem)
    with U have "?U ! k \<in> set (deployed_charm_classes s)"
      "?U ! k \<notin> set (finalized_charm_classes s)" by auto
    moreover have "distinct (deployed_charm_classes s) \<longrightarrow> ?U ! k \<notin> set ?fs"
      using nth_notin_take[OF dU kk(1)] by simp
    ultimately show ?thesis using kk by blast
  qed
  show ?thesis
    apply (rule exI[of _ ?fs])
    using k(2) sub U dU raise by (auto dest: distinct_take)
qed

lemma process_growth:
  assumes p: "process cfg modules ev js ms s = (r, s')"
  shows "\<exists>ds fs. deployed_charm_classes s' = deployed_charm_classes s @ ds \<and>
           finalized_charm_classes s' = finalized_charm_classes s @ fs \<and>
           set ds \<subseteq> set modules \<and> set ds \<inter> set (deployed_charm_classes s) = {} \<and>
           (distinct modules \<longrightarrow> distinct ds) \<and>
           set fs \<subseteq> set (deployed_charm_classes s') \<and>
           set fs \<inter> set (finalized_charm_classes s) = {} \<and>
           (distinct (deployed_charm_classes s') \<longrightarrow> distinct fs) \<and>
           (\<forall>c \<in> set fs. service_up js c)"
proof (cases "done_flag s")
  case True
  with p have "s' = s" by (simp add: process_def)
  then show ?thesis by simp
next
  case False
  from p False show ?thesis
  proof (cases rule: process_cases)
    case (acquire_raise e)
    from acquire_controller_char[OF acquire_raise(1)] show ?thesis by simp
  next
    case wait
    from acquire_controller_char[OF wait(1)] show ?thesis by simp
  next
    case (deploy_raise s1 e)
    from acquire_controller_char[OF deploy_raise(1)] have m1: "machine s1 \<noteq> None"
      and f1: "deployed_charm_classes s1 = deployed_charm_classes s"
        "finalized_charm_classes s1 = finalized_charm_classes s" by auto
    from deploy_step_char[OF deploy_raise(2) m1]
    have f2: "finalized_charm_classes s' = finalized_charm_classes s1" by simp
    from deploy_step_growth[OF deploy_raise(2) m1] obtain ds where
      "deployed_charm_classes s' = deployed_charm_classes s1 @ ds"
      "set ds \<subseteq> set modules" "set ds \<inter> set (deployed_charm_classes s1) = {}"
      "distinct modules \<longrightarrow> distinct ds" by auto
    with f1 f2 show ?thesis by (intro exI[of _ ds] exI[of _ "[]"]) simp
  next
    case (finalize_raise s1 s2 e)
    from acquire_controller_char[OF finalize_raise(1)] have m1: "machine s1 \<noteq> None"
      and f1: "deployed_charm_classes s1 = deployed_charm_classes s"
        "finalized_charm_classes s1 = finalized_charm_classes s" by auto
    from deploy_step_char[OF finalize_raise(2) m1]
    have f2: "finalized_charm_classes s2 = finalized_charm_classes s1" by simp
    from finalize_step_char[OF finalize_raise(3)]
    have f3: "deployed_charm_classes s' = deployed_charm_classes s2" by simp
    from deploy_step_growth[OF finalize_raise(2) m1] obtain ds where ds:
      "deployed_charm_classes s2 = deployed_charm_classes s1 @ ds"
      "set ds \<subseteq> set modules" "set ds \<inter> set (deployed_charm_classes s1) = {}"
      "distinct modules \<longrightarrow> distinct ds" by auto
    from finalize_step_growth[OF finalize_raise(3)] obtain fs where fs:
      "finalized_charm_classes s' = finalized_charm_classes s2 @ fs"
      "set fs \<subseteq> set (deployed_charm_classes s2)"
      "set fs \<inter> set (finalized_charm_classes s2) = {}"
      "distinct (deployed_charm_classes s2) \<longrightarrow> distinct fs"
      "\<forall>c \<in> set fs. service_up js c" by auto
    from ds fs f1 f2 f3 show ?thesis by (intro exI[of _ ds] exI[of _ fs]) simp
  next
    case (continue s1 s2)
    from acquire_controller_char[OF continue(1)] have m1: "machine s1 \<noteq> None"
      and f1: "deployed_charm_classes s1 = deployed_charm_classes s"
        "finalized_charm_classes s1 = finalized_charm_classes s" by auto
    from deploy_step_char[OF continue(2) m1]
    have f2: "finalized_charm_classes s2 = finalized_charm_classes s1" by simp
    from finalize_step_char[OF continue(3)]
    have f3: "deployed_charm_classes s' = deployed_charm_classes s2" by simp
    from deploy_step_growth[OF continue(2) m1] obtain ds where ds:
      "deployed_charm_classes s2 = deployed_charm_classes s1 @ ds"
      "set ds \<subseteq> set modules" "set ds \<inter> set (deployed_charm_classes s1) = {}"
      "distinct modules \<longrightarrow> distinct ds" by auto
    from finalize_step_growth[OF continue(3)] obtain fs where fs:
      "finalized_charm_classes s' = finalized_charm_classes s2 @ fs"
      "set fs \<subseteq> set (deployed_charm_classes s2)"
      "set fs \<inter> set (finalized_charm_classes s2) = {}"
      "distinct (deployed_charm_classes s2) \<longrightarrow> distinct fs"
      "\<forall>c \<in> set fs. service_up js c" by auto
    from ds fs f1 f2 f3 show ?thesis by (intro exI[of _ ds] exI[of _ fs]) simp
  next
    case (finish s1 s2 s3)
    from acquire_controller_char[OF finish(1)] have m1: "machine s1 \<noteq> None"
      and f1: "deployed_charm_classes s1 = deployed_charm_classes s"
        "finalized_charm_classes s1 = finalized_charm_classes s" by auto
    from deploy_step_char[OF finish(2) m1]
    have f2: "finalized_charm_classes s2 = finalized_charm_classes s1" by simp
    from finalize_step_char[OF finish(3)]
    have f3: "deployed_charm_classes s3 = deployed_charm_classes s2" by simp
    from deploy_step_growth[OF finish(2) m1] obtain ds where ds:
      "deployed_charm_classes s2 = deployed_charm_classes s1 @ ds"
      "set ds \<subseteq> set modules" "set ds \<inter> set (deployed_charm_classes s1) = {}"
      "distinct modules \<longrightarrow> distinct ds" by auto
    from finalize_step_growth[OF finish(3)] obtain fs where fs:
      "finalized_charm_classes s3 = finalized_charm_classes s2 @ fs"
      "set fs \<subseteq> set (deployed_charm_classes s2)"
      "set fs \<inter> set (finalized_charm_classes s2) = {}"
      "distinct (deployed_charm_classes s2) \<longrightarrow> distinct fs"
      "\<forall>c \<in> set fs. service_up js c" by auto
    from ds fs f1 f2 f3 finish(6) show ?thesis by (intro exI[of _ ds] exI[of _ fs]) simp
  qed
qed

lemma deploy_step_raise:
  assumes d: "deploy_step ev js (sort_key deploy_priority modules) s = (Inl e, s')"
    and m: "machine s \<noteq> None"
  shows "\<exists>c \<in> set modules. c \<notin> set (deployed_charm_classes s) \<and>
               \<not> in_services js c \<and> setup_raises ev c (lxc_target s) \<and>
               (distinct modules \<longrightarrow> c \<notin> set (deployed_charm_classes s'))"
proof -
  from deploy_step_growth[OF d m] obtain ds where ds:
    "deployed_charm_classes s' = deployed_charm_classes s @ ds"
    and ex: "\<forall>e'. (Inl e :: exc + unit) = Inl e' \<longrightarrow> (\<exists>c \<in> set modules. c \<notin> set (deployed_charm_classes s) \<and>
               \<not> in_services js c \<and> setup_raises ev c (lxc_target s) \<and>
               (distinct modules \<longrightarrow> c \<notin> set ds))"
    by (elim exE conjE)
  from ex have "\<exists>c \<in> set modules. c \<notin> set (deployed_charm_classes s) \<and>
               \<not> in_services js c \<and> setup_raises ev c (lxc_target s) \<and>
               (distinct modules \<longrightarrow> c \<notin> set ds)" by simp
  then obtain c where c: "c \<in> set modules" "c \<notin> set (deployed_charm_classes s)"
    "\<not> in_services js c" "setup_raises ev c (lxc_target s)" "distinct modules \<longrightarrow> c \<notin> set ds"
    by (elim bexE conjE)
  from c(2,5) ds have "distinct modules \<longrightarrow> c \<notin> set (deployed_charm_classes s')" by simp
  with c show ?thesis by (intro bexI[of _ c] conjI)
qed

lemma finalize_step_raise:
  assumes f: "finalize_step ev js s = (Inl e, s')"
  shows "\<exists>c \<in> set (deployed_charm_classes s).
               c \<notin> set (finalized_charm_classes s) \<and> service_up js c \<and>
               (set_relations_raises ev c \<or> post_proc_raises ev c) \<and>
               (distinct (deployed_charm_classes s) \<longrightarrow> c \<notin> set (finalized_charm_classes s'))"
proof -
  from finalize_step_growth[OF f] obtain fs where fs:
    "finalized_charm_classes s' = finalized_charm_classes s @ fs"
    and ex: "\<forall>e'. (Inl e :: exc + unit) = Inl e' \<longrightarrow> (\<exists>c \<in> set (deployed_charm_classes s).
               c \<notin> set (finalized_charm_classes s) \<and> service_up js c \<and>
               (set_relations_raises ev c \<or> post_proc_raises ev c) \<and>
               (distinct (deployed_charm_classes s) \<longrightarrow> c \<notin> set fs))"
    by (elim exE conjE)
  from ex have "\<exists>c \<in> set (deployed_charm_classes s).
               c \<notin> set (finalized_charm_classes s) \<and> service_up js c \<and>
               (set_relations_raises ev c \<or> post_proc_raises ev c) \<and>
               (distinct (deployed_charm_classes s) \<longrightarrow> c \<notin> set fs)" by simp
  then obtain c where c: "c \<in> set (deployed_charm_classes s)"
    "c \<notin> set (finalized_charm_classes s)" "service_up js c"
    "set_relations_raises ev c \<or> post_proc_raises ev c"
    "distinct (deployed_charm_classes s) \<longrightarrow> c \<notin> set fs"
    by (elim bexE conjE)
  from c(2,5) fs have "distinct (deployed_charm_classes s) \<longrightarrow> c \<notin> set (finalized_charm_classes s')"
    by simp
  with c show ?thesis by (intro bexI[of _ c] conjI)
qed

lemma process_Inl_not_done: "process cfg modules ev js ms s = (Inl e, s') \<Longrightarrow> \<not> done_flag s"
proof
  assume p: "process cfg modules ev js ms s = (Inl e, s')" and "done_flag s"
  then have "process cfg modules ev js ms s = (Inr False, s)" by (simp add: process_done)
  with p show False by simp
qed

lemma deploy_step_frame:
  assumes "deploy_step ev js cc s = (r, s')" "machine s \<noteq> None"
  shows "machine s' = machine s" "done_flag s' = done_flag s"
     "finalized_charm_classes s' = finalized_charm_classes s"
     "single_net_configured s' = single_net_configured s"
proof -
  from deploy_step_char[OF assms]
  have "machine s' = machine s \<and> done_flag s' = done_flag s \<and>
     finalized_charm_classes s' = finalized_charm_classes s \<and>
     single_net_configured s' = single_net_configured s"
    by (elim conjE) (intro conjI, assumption+)
  then show "machine s' = machine s" "done_flag s' = done_flag s"
     "finalized_charm_classes s' = finalized_charm_classes s"
     "single_net_configured s' = single_net_configured s" by simp_all
qed

lemma finalize_step_frame:
  assumes "finalize_step ev js s = (r, s')"
  shows "machine s' = machine s" "done_flag s' = done_flag s"
     "deployed_charm_classes s' = deployed_charm_classes s"
     "single_net_configured s' = single_net_configured s"
proof -
  from finalize_step_char[OF assms]
  have "machine s' = machine s \<and> done_flag s' = done_flag s \<and>
     deployed_charm_classes s' = deployed_charm_classes s \<and>
     single_net_configured s' = single_net_configured s"
    by (elim conjE) (intro conjI, assumption+)
  then show "machine s' = machine s" "done_flag s' = done_flag s"
     "deployed_charm_classes s' = deployed_charm_classes s"
     "single_net_configured s' = single_net_configured s" by simp_all
qed

lemma acquire_controller_frame:
  assumes "acquire_controller ev cfg js ms s = (r, s1)"
  shows "done_flag s1 = done_flag s"
     "deployed_charm_classes s1 = deployed_charm_classes s"
     "finalized_charm_classes s1 = finalized_charm_classes s"
     "machine s \<noteq> None \<Longrightarrow> s1 = s"
     "r = Inr None \<Longrightarrow> machine s1 \<noteq> None"
     "r = Inr (Some True) \<Longrightarrow> machine s1 = None"
  using acquire_controller_char[OF assms] by auto

lemma process_raise:
  assumes p: "process cfg modules ev js ms s = (Inl e, s')"
  shows "(e = ClientFailure \<and> add_machine_raises ev \<and> machine s = None \<and> machine s' = None \<and>
            deployed_charm_classes s' = deployed_charm_classes s \<and>
            finalized_charm_classes s' = finalized_charm_classes s) \<or>
         (e = RunFailure \<and> (\<exists>cmd. run_raises ev cmd) \<and> machine s = None \<and> machine s' \<noteq> None \<and>
            deployed_charm_classes s' = deployed_charm_classes s \<and>
            finalized_charm_classes s' = finalized_charm_classes s) \<or>
         (e = HookFailure \<and> machine s' \<noteq> None \<and>
          ((\<exists>c \<in> set modules. c \<notin> set (deployed_charm_classes s) \<and> \<not> in_services js c \<and>
            setup_raises ev c (lxc_target s') \<and>
            (distinct modules \<longrightarrow> c \<notin> set (deployed_charm_classes s'))) \<or>
           (\<exists>c \<in> set (deployed_charm_classes s'). c \<notin> set (finalized_charm_classes s) \<and>
            service_up js c \<and> (set_relations_raises ev c \<or> post_proc_raises ev c) \<and>
            (distinct (deployed_charm_classes s') \<longrightarrow> c \<notin> set (finalized_charm_classes s')))))"
proof -
  note nd = process_Inl_not_done[OF p]
  from process_frame[OF p]
  have m': "e = HookFailure \<longrightarrow> machine s' \<noteq> None" by simp
  from p nd show ?thesis
  proof (cases rule: process_cases)
    case (acquire_raise e')
    from acquire_controller_char[OF acquire_raise(1)] acquire_raise(2)
    show ?thesis by auto
  next
    case wait
    from wait(2) show ?thesis by simp
  next
    case (deploy_raise s1 e')
    note a = acquire_controller_frame[OF deploy_raise(1)]
    from a(5) have m1: "machine s1 \<noteq> None" by simp
    note f1 = a(2)
    from deploy_step_frame(1)[OF deploy_raise(2) m1]
    have t: "lxc_target s1 = lxc_target s'" by (simp add: lxc_target_def)
    from deploy_step_char[OF deploy_raise(2) m1] deploy_raise(3)
    have e: "e = HookFailure" by auto
    from deploy_step_raise[OF deploy_raise(2) m1]
    have "\<exists>c \<in> set modules. c \<notin> set (deployed_charm_classes s) \<and> \<not> in_services js c \<and>
            setup_raises ev c (lxc_target s') \<and>
            (distinct modules \<longrightarrow> c \<notin> set (deployed_charm_classes s'))"
      unfolding f1 t .
    with e m' show ?thesis by blast
  next
    case (finalize_raise s1 s2 e')
    note a = acquire_controller_frame[OF finalize_raise(1)]
    from a(5) have m1: "machine s1 \<noteq> None" by simp
    from deploy_step_frame(3)[OF finalize_raise(2) m1] a(3)
    have f2: "finalized_charm_classes s2 = finalized_charm_classes s" by simp
    from finalize_step_frame(3)[OF finalize_raise(3)]
    have f3: "deployed_charm_classes s2 = deployed_charm_classes s'" by simp
    from finalize_step_char[OF finalize_raise(3)] finalize_raise(4)
    have e: "e = HookFailure" by auto
    from finalize_step_raise[OF finalize_raise(3)]
    have "\<exists>c \<in> set (deployed_charm_classes s'). c \<notin> set (finalized_charm_classes s) \<and>
            service_up js c \<and> (set_relations_raises ev c \<or> post_proc_raises ev c) \<and>
            (distinct (deployed_charm_classes s') \<longrightarrow> c \<notin> set (finalized_charm_classes s'))"
      unfolding f2 f3 .
    with e m' show ?thesis by blast
  next
    case (continue s1 s2)
    from continue(5) show ?thesis by simp
  next
    case (finish s1 s2 s3)
    from finish(5) show ?thesis by simp
  qed
qed

lemma new_events_append: "trace s' = trace s @ evs \<Longrightarrow> new_events s s' = evs"
  by (simp add: new_events_def)

lemma deploy_step_events:
  assumes d: "deploy_step ev js (sort_key deploy_priority modules) s = (r, s')"
    and m: "machine s \<noteq> None"
  shows "\<exists>evs. trace s' = trace s @ evs \<and>
           (\<forall>e \<in> set evs. \<exists>c \<in> set modules. c \<notin> set (deployed_charm_classes s) \<and>
               \<not> in_services js c \<and> e = Setup c (lxc_target s))"
proof -
  let ?U = "filter (\<lambda>c. c \<notin> set (deployed_charm_classes s)) (sort_key deploy_priority modules)"
  from deploy_step_char[OF d m] obtain evs where evs: "trace s' = trace s @ evs"
    "\<forall>e \<in> set evs. \<exists>c \<in> set ?U. \<not> in_services js c \<and> e = Setup c (lxc_target s)"
    by auto
  have "\<forall>e \<in> set evs. \<exists>c \<in> set modules. c \<notin> set (deployed_charm_classes s) \<and>
               \<not> in_services js c \<and> e = Setup c (lxc_target s)"
  proof
    fix e assume "e \<in> set evs"
    with evs(2) obtain c where "c \<in> set ?U" "\<not> in_services js c" "e = Setup c (lxc_target s)"
      by blast
    then show "\<exists>c \<in> set modules. c \<notin> set (deployed_charm_classes s) \<and>
               \<not> in_services js c \<and> e = Setup c (lxc_target s)"
      by (intro bexI[of _ c]) auto
  qed
  with evs(1) show ?thesis by blast
qed

lemma finalize_step_events:
  assumes f: "finalize_step ev js s = (r, s')"
  shows "\<exists>evs. trace s' = trace s @ evs \<and>
           (\<forall>e \<in> set evs. \<exists>c \<in> set (deployed_charm_classes s).
               c \<notin> set (finalized_charm_classes s) \<and> service_up js c \<and>
               (e = SetRelations c \<or> e = PostProc c))"
proof -
  let ?U = "filter (\<lambda>c. c \<notin> set (finalized_charm_classes s)) (deployed_charm_classes s)"
  from finalize_step_char[OF f] obtain evs where evs: "trace s' = trace s @ evs"
    "\<forall>e \<in> set evs. \<exists>c \<in> set ?U. service_up js c \<and> (e = SetRelations c \<or> e = PostProc c)"
    by auto
  have "\<forall>e \<in> set evs. \<exists>c \<in> set (deployed_charm_classes s).
               c \<notin> set (finalized_charm_classes s) \<and> service_up js c \<and>
               (e = SetRelations c \<or> e = PostProc c)"
  proof
    fix e assume "e \<in> set evs"
    with evs(2) obtain c where "c \<in> set ?U" "service_up js c"
      "e = SetRelations c \<or> e = PostProc c" by blast
    then show "\<exists>c \<in> set (deployed_charm_classes s).
               c \<notin> set (finalized_charm_classes s) \<and> service_up js c \<and>
               (e = SetRelations c \<or> e = PostProc c)"
      by (intro bexI[of _ c]) auto
  qed
  with evs(1) show ?thesis by blast
qed

lemma acquire_controller_events:
  assumes a: "acquire_controller ev cfg js ms s = (r, s1)"
  shows "\<exists>evs. trace s1 = trace s @ evs \<and> (\<forall>e \<in> set evs. e = AddMachine \<or> is_Run e) \<and>
           (machine s \<noteq> None \<longrightarrow> evs = [])"
proof -
  from acquire_controller_char[OF a] obtain evs where
    evs: "trace s1 = trace s @ evs" "\<forall>e \<in> set evs. e = AddMachine \<or> is_Run e" by auto
  from acquire_controller_frame(4)[OF a] evs(1) have "machine s \<noteq> None \<longrightarrow> evs = []" by auto
  with evs show ?thesis by blast
qed

lemma init_overlay_inv: "overlay_inv modules (init_overlay cfg)"
  by (simp add: overlay_inv_def init_overlay_def)

lemma acquire_controller_None:
  assumes a: "acquire_controller ev cfg js ms s = (r, s1)" and m: "machine s1 = None"
  shows "single_net_configured s1 = single_net_configured s"
proof -
  from acquire_controller_char[OF a] m have ms: "machine s = None" by auto
  obtain rg s0 where g: "get_controller_machine ev cfg js ms s = (rg, s0)"
    by (cases "get_controller_machine ev cfg js ms s")
  from get_controller_machine_char[OF g]
  have s0: "single_net_configured s0 = single_net_configured s" "machine s0 = machine s" by auto
  show ?thesis
  proof (cases rg)
    case (Inl e)
    with a ms g have "s1 = s0" by (simp add: acquire_controller_def)
    with s0 show ?thesis by simp
  next
    case (Inr mo)
    show ?thesis
    proof (cases mo)
      case None
      with a ms g Inr have "s1 = s0\<lparr>machine := None\<rparr>" by (simp add: acquire_controller_def)
      with s0 show ?thesis by simp
    next
      case (Some m')
      let ?s2 = "s0\<lparr>machine := Some m'\<rparr>"
      show ?thesis
      proof (cases "SINGLE_SYSTEM cfg \<and> \<not> single_net_configured s0")
        case True
        obtain rc s3 where c: "configure_lxc_network ev ?s2 = (rc, s3)"
          by (cases "configure_lxc_network ev ?s2")
        have m2: "machine ?s2 = Some m'" by simp
        from configure_lxc_network_char[OF c m2] have m3: "machine s3 \<noteq> None" by simp
        from a ms g Inr Some True c have "s1 = s3"
          by (cases rc) (simp_all add: acquire_controller_def)
        with m3 m show ?thesis by simp
      next
        case False
        with a ms g Inr Some have "s1 = ?s2" by (auto simp add: acquire_controller_def)
        with m show ?thesis by simp
      qed
    qed
  qed
qed

lemma process_machine_None:
  assumes p: "process cfg modules ev js ms s = (r, s')" and m: "machine s' = None"
  shows "deployed_charm_classes s' = deployed_charm_classes s \<and>
         finalized_charm_classes s' = finalized_charm_classes s \<and>
         single_net_configured s' = single_net_configured s \<and>
         done_flag s' = done_flag s \<and> machine s = None"
proof (cases "done_flag s")
  case True
  with p have "s' = s" by (simp add: process_def)
  with m show ?thesis by simp
next
  case False
  from process_frame[OF p] m have ms: "machine s = None" by auto
  from p False show ?thesis
  proof (cases rule: process_cases)
    case (acquire_raise e)
    from acquire_controller_char[OF acquire_raise(1)]
      acquire_controller_None[OF acquire_raise(1) m] ms show ?thesis by simp
  next
    case wait
    from acquire_controller_char[OF wait(1)]
      acquire_controller_None[OF wait(1) m] ms show ?thesis by simp
  next
    case (deploy_raise s1 e)
    note a = acquire_controller_frame[OF deploy_raise(1)]
    from a(5) have m1: "machine s1 \<noteq> None" by simp
    from deploy_step_frame(1)[OF deploy_raise(2) m1] m1 m show ?thesis by simp
  next
    case (finalize_raise s1 s2 e)
    note a = acquire_controller_frame[OF finalize_raise(1)]
    from a(5) have m1: "machine s1 \<noteq> None" by simp
    from deploy_step_frame(1)[OF finalize_raise(2) m1] finalize_step_frame(1)[OF finalize_raise(3)]
      m1 m show ?thesis by simp
  next
    case (continue s1 s2)
    note a = acquire_controller_frame[OF continue(1)]
    from a(5) have m1: "machine s1 \<noteq> None" by simp
    from deploy_step_frame(1)[OF continue(2) m1] finalize_step_frame(1)[OF continue(3)]
      m1 m show ?thesis by simp
  next
    case (finish s1 s2 s3)
    note a = acquire_controller_frame[OF finish(1)]
    from a(5) have m1: "machine s1 \<noteq> None" by simp
    from deploy_step_frame(1)[OF finish(2) m1] finalize_step_frame(1)[OF finish(3)]
      m1 m finish(6) show ?thesis by simp
  qed
qed

lemma process_inv:
  assumes p: "process cfg modules ev js ms s = (r, s')" and i: "overlay_inv modules s"
  shows "overlay_inv modules s'"
proof -
  from process_growth[OF p] obtain ds fs where g:
    "deployed_charm_classes s' = deployed_charm_classes s @ ds"
    "finalized_charm_classes s' = finalized_charm_classes s @ fs"
    "set ds \<subseteq> set modules" "set ds \<inter> set (deployed_charm_classes s) = {}"
    "distinct modules \<longrightarrow> distinct ds"
    "set fs \<subseteq> set (deployed_charm_classes s')"
    "set fs \<inter> set (finalized_charm_classes s) = {}"
    "distinct (deployed_charm_classes s') \<longrightarrow> distinct fs"
    by (elim exE conjE)
  from i have i1: "set (finalized_charm_classes s) \<subseteq> set (deployed_charm_classes s)"
    and i2: "set (deployed_charm_classes s) \<subseteq> set modules"
    and i3: "distinct modules \<longrightarrow>
         distinct (deployed_charm_classes s) \<and> distinct (finalized_charm_classes s)"
    and i4: "machine s = None \<longrightarrow>
         deployed_charm_classes s = [] \<and> \<not> done_flag s \<and> \<not> single_net_configured s"
    and i5: "done_flag s \<longrightarrow> length (finalized_charm_classes s) = length modules"
    by (simp_all add: overlay_inv_def)
  have c1: "set (finalized_charm_classes s') \<subseteq> set (deployed_charm_classes s')"
    using g(1,2,6) i1 by auto
  have c2: "set (deployed_charm_classes s') \<subseteq> set modules"
    using g(1,3) i2 by auto
  have c3: "distinct modules \<longrightarrow>
         distinct (deployed_charm_classes s') \<and> distinct (finalized_charm_classes s')"
  proof
    assume d: "distinct modules"
    with i3 g(5) have "distinct (deployed_charm_classes s)" "distinct ds"
      "distinct (finalized_charm_classes s)" by simp_all
    with g(1,4) have dd: "distinct (deployed_charm_classes s')" by auto
    with g(8) have "distinct fs" by simp
    with g(2,7) \<open>distinct (finalized_charm_classes s)\<close>
    have "distinct (finalized_charm_classes s')" by auto
    with dd show "distinct (deployed_charm_classes s') \<and> distinct (finalized_charm_classes s')"
      by simp
  qed
  have c4: "machine s' = None \<longrightarrow>
         deployed_charm_classes s' = [] \<and> \<not> done_flag s' \<and> \<not> single_net_configured s'"
  proof
    assume m: "machine s' = None"
    from process_machine_None[OF p m] i4
    show "deployed_charm_classes s' = [] \<and> \<not> done_flag s' \<and> \<not> single_net_configured s'"
      by simp
  qed
  have c5: "done_flag s' \<longrightarrow> length (finalized_charm_classes s') = length modules"
  proof (cases "done_flag s")
    case True
    with p have "s' = s" by (simp add: process_def)
    with i5 show ?thesis by simp
  next
    case False
    with process_frame[OF p] show ?thesis by auto
  qed
  from c1 c2 c3 c4 c5 show ?thesis unfolding overlay_inv_def by (intro conjI)
qed

lemma run_calls_append:
  "run_calls cfg modules (xs @ ys) s = run_calls cfg modules ys (run_calls cfg modules xs s)"
  by (induction xs arbitrary: s) auto

lemma run_calls_inv: "overlay_inv modules s \<Longrightarrow> overlay_inv modules (run_calls cfg modules calls s)"
proof (induction calls arbitrary: s)
  case Nil
  then show ?case by simp
next
  case (Cons a calls)
  obtain ev js ms where a: "a = (ev, js, ms)" by (cases a)
  have "overlay_inv modules (snd (process cfg modules ev js ms s))"
    by (rule process_inv[OF prod.collapse[symmetric] Cons.prems])
  from Cons.IH[OF this] a show ?case by simp
qed

lemma reachable_inv: "overlay_inv modules (run_calls cfg modules calls (init_overlay cfg))"
  by (rule run_calls_inv[OF init_overlay_inv])

lemma process_events:
  assumes p: "process cfg modules ev js ms s = (r, s')"
  shows "\<exists>evs. trace s' = trace s @ evs \<and>
           (\<forall>e \<in> set evs.
              ((e = AddMachine \<or> is_Run e) \<and> machine s = None) \<or>
              (\<exists>c \<in> set modules. c \<notin> set (deployed_charm_classes s) \<and> \<not> in_services js c \<and>
                  machine s' \<noteq> None \<and> e = Setup c (lxc_target s')) \<or>
              (\<exists>c \<in> set (deployed_charm_classes s'). c \<notin> set (finalized_charm_classes s) \<and>
                  service_up js c \<and> (e = SetRelations c \<or> e = PostProc c)))"
  (is "\<exists>evs. trace s' = trace s @ evs \<and> (\<forall>e \<in> set evs. ?A e \<or> ?D e \<or> ?F e)")
proof (cases "done_flag s")
  case True
  with p have "s' = s" by (simp add: process_def)
  then show ?thesis by simp
next
  case False
  from p False show ?thesis
  proof (cases rule: process_cases)
    case (acquire_raise e)
    from acquire_controller_events[OF acquire_raise(1)] obtain ea where
      ea: "trace s' = trace s @ ea" "\<forall>e \<in> set ea. e = AddMachine \<or> is_Run e"
      "machine s \<noteq> None \<longrightarrow> ea = []" by (elim exE conjE)
    have "\<forall>e \<in> set ea. ?A e" using ea(2,3) by auto
    with ea(1) show ?thesis by blast
  next
    case wait
    from acquire_controller_events[OF wait(1)] obtain ea where
      ea: "trace s' = trace s @ ea" "\<forall>e \<in> set ea. e = AddMachine \<or> is_Run e"
      "machine s \<noteq> None \<longrightarrow> ea = []" by (elim exE conjE)
    have "\<forall>e \<in> set ea. ?A e" using ea(2,3) by auto
    with ea(1) show ?thesis by blast
  next
    case (deploy_raise s1 e)
    note a = acquire_controller_frame[OF deploy_raise(1)]
    from a(5) have m1: "machine s1 \<noteq> None" by simp
    from deploy_step_frame(1)[OF deploy_raise(2) m1]
    have ms: "machine s' = machine s1" .
    then have t: "lxc_target s1 = lxc_target s'" by (simp add: lxc_target_def)
    from acquire_controller_events[OF deploy_raise(1)] obtain ea where
      ea: "trace s1 = trace s @ ea" "\<forall>e \<in> set ea. e = AddMachine \<or> is_Run e"
      "machine s \<noteq> None \<longrightarrow> ea = []" by (elim exE conjE)
    from deploy_step_events[OF deploy_raise(2) m1] obtain ed where
      ed: "trace s' = trace s1 @ ed"
      "\<forall>e \<in> set ed. \<exists>c \<in> set modules. c \<notin> set (deployed_charm_classes s1) \<and>
               \<not> in_services js c \<and> e = Setup c (lxc_target s1)" by (elim exE conjE)
    have A: "\<forall>e \<in> set ea. ?A e" using ea(2,3) by auto
    have D: "\<forall>e \<in> set ed. ?D e" using ed(2) m1 ms unfolding a(2) t by simp
    from ea(1) ed(1) have "trace s' = trace s @ (ea @ ed)" by simp
    moreover from A D have "\<forall>e \<in> set (ea @ ed). ?A e \<or> ?D e \<or> ?F e" by auto
    ultimately show ?thesis by blast
  next
    case (finalize_raise s1 s2 e)
    note a = acquire_controller_frame[OF finalize_raise(1)]
    from a(5) have m1: "machine s1 \<noteq> None" by simp
    from deploy_step_frame(1)[OF finalize_raise(2) m1] finalize_step_frame(1)[OF finalize_raise(3)]
    have ms: "machine s' = machine s1" by simp
    then have t: "lxc_target s1 = lxc_target s'" by (simp add: lxc_target_def)
    from deploy_step_frame(3)[OF finalize_raise(2) m1] a(3)
    have f2: "finalized_charm_classes s2 = finalized_charm_classes s" by simp
    from finalize_step_frame(3)[OF finalize_raise(3)]
    have f3: "deployed_charm_classes s2 = deployed_charm_classes s'" by simp
    from acquire_controller_events[OF finalize_raise(1)] obtain ea where
      ea: "trace s1 = trace s @ ea" "\<forall>e \<in> set ea. e = AddMachine \<or> is_Run e"
      "machine s \<noteq> None \<longrightarrow> ea = []" by (elim exE conjE)
    from deploy_step_events[OF finalize_raise(2) m1] obtain ed where
      ed: "trace s2 = trace s1 @ ed"
      "\<forall>e \<in> set ed. \<exists>c \<in> set modules. c \<notin> set (deployed_charm_classes s1) \<and>
               \<not> in_services js c \<and> e = Setup c (lxc_target s1)" by (elim exE conjE)
    from finalize_step_events[OF finalize_raise(3)] obtain ef where
      ef: "trace s' = trace s2 @ ef"
      "\<forall>e \<in> set ef. \<exists>c \<in> set (deployed_charm_classes s2).
               c \<notin> set (finalized_charm_classes s2) \<and> service_up js c \<and>
               (e = SetRelations c \<or> e = PostProc c)" by (elim exE conjE)
    have A: "\<forall>e \<in> set ea. ?A e" using ea(2,3) by auto
    have D: "\<forall>e \<in> set ed. ?D e" using ed(2) m1 ms unfolding a(2) t by simp
    have F: "\<forall>e \<in> set ef. ?F e" using ef(2) unfolding f2 f3 by simp
    from ea(1) ed(1) ef(1) have "trace s' = trace s @ (ea @ ed @ ef)" by simp
    moreover from A D F have "\<forall>e \<in> set (ea @ ed @ ef). ?A e \<or> ?D e \<or> ?F e" by auto
    ultimately show ?thesis by blast
  next
    case (continue s1 s2)
    note a = acquire_controller_frame[OF continue(1)]
    from a(5) have m1: "machine s1 \<noteq> None" by simp
    from deploy_step_frame(1)[OF continue(2) m1] finalize_step_frame(1)[OF continue(3)]
    have ms: "machine s' = machine s1" by simp
    then have t: "lxc_target s1 = lxc_target s'" by (simp add: lxc_target_def)
    from deploy_step_frame(3)[OF continue(2) m1] a(3)
    have f2: "finalized_charm_classes s2 = finalized_charm_classes s" by simp
    from finalize_step_frame(3)[OF continue(3)]
    have f3: "deployed_charm_classes s2 = deployed_charm_classes s'" by simp
    from acquire_controller_events[OF continue(1)] obtain ea where
      ea: "trace s1 = trace s @ ea" "\<forall>e \<in> set ea. e = AddMachine \<or> is_Run e"
      "machine s \<noteq> None \<longrightarrow> ea = []" by (elim exE conjE)
    from deploy_step_events[OF continue(2) m1] obtain ed where
      ed: "trace s2 = trace s1 @ ed"
      "\<forall>e \<in> set ed. \<exists>c \<in> set modules. c \<notin> set (deployed_charm_classes s1) \<and>
               \<not> in_services js c \<and> e = Setup c (lxc_target s1)" by (elim exE conjE)
    from finalize_step_events[OF continue(3)] obtain ef where
      ef: "trace s' = trace s2 @ ef"
      "\<forall>e \<in> set ef. \<exists>c \<in> set (deployed_charm_classes s2).
               c \<notin> set (finalized_charm_classes s2) \<and> service_up js c \<and>
               (e = SetRelations c \<or> e = PostProc c)" by (elim exE conjE)
    have A: "\<forall>e \<in> set ea. ?A e" using ea(2,3) by auto
    have D: "\<forall>e \<in> set ed. ?D e" using ed(2) m1 ms unfolding a(2) t by simp
    have F: "\<forall>e \<in> set ef. ?F e" using ef(2) unfolding f2 f3 by simp
    from ea(1) ed(1) ef(1) have "trace s' = trace s @ (ea @ ed @ ef)" by simp
    moreover from A D F have "\<forall>e \<in> set (ea @ ed @ ef). ?A e \<or> ?D e \<or> ?F e" by auto
    ultimately show ?thesis by blast
  next
    case (finish s1 s2 s3)
    note a = acquire_controller_frame[OF finish(1)]
    from a(5) have m1: "machine s1 \<noteq> None" by simp
    from deploy_step_frame(1)[OF finish(2) m1] finalize_step_frame(1)[OF finish(3)] finish(6)
    have ms: "machine s' = machine s1" by simp
    then have t: "lxc_target s1 = lxc_target s'" by (simp add: lxc_target_def)
    from deploy_step_frame(3)[OF finish(2) m1] a(3)
    have f2: "finalized_charm_classes s2 = finalized_charm_classes s" by simp
    from finalize_step_frame(3)[OF finish(3)] finish(6)
    have f3: "deployed_charm_classes s2 = deployed_charm_classes s'" by simp
    from acquire_controller_events[OF finish(1)] obtain ea where
      ea: "trace s1 = trace s @ ea" "\<forall>e \<in> set ea. e = AddMachine \<or> is_Run e"
      "machine s \<noteq> None \<longrightarrow> ea = []" by (elim exE conjE)
    from deploy_step_events[OF finish(2) m1] obtain ed where
      ed: "trace s2 = trace s1 @ ed"
      "\<forall>e \<in> set ed. \<exists>c \<in> set modules. c \<notin> set (deployed_charm_classes s1) \<and>
               \<not> in_services js c \<and> e = Setup c (lxc_target s1)" by (elim exE conjE)
    from finalize_step_events[OF finish(3)] obtain ef where
      ef: "trace s3 = trace s2 @ ef"
      "\<forall>e \<in> set ef. \<exists>c \<in> set (deployed_charm_classes s2).
               c \<notin> set (finalized_charm_classes s2) \<and> service_up js c \<and>
               (e = SetRelations c \<or> e = PostProc c)" by (elim exE conjE)
    have A: "\<forall>e \<in> set ea. ?A e" using ea(2,3) by auto
    have D: "\<forall>e \<in> set ed. ?D e" using ed(2) m1 ms unfolding a(2) t by simp
    have F: "\<forall>e \<in> set ef. ?F e" using ef(2) unfolding f2 f3 by simp
    from ea(1) ed(1) ef(1) finish(6) have "trace s' = trace s @ (ea @ ed @ ef)" by simp
    moreover from A D F have "\<forall>e \<in> set (ea @ ed @ ef). ?A e \<or> ?D e \<or> ?F e" by auto
    ultimately show ?thesis by blast
  qed
qed

section \<open>Sequences of calls\<close>

lemmas eval_defs = process_def process_body_def acquire_controller_def
  get_controller_machine_def get_started_machine_def configure_lxc_network_def
  deploy_step_def finalize_step_def deploy_loop.simps finalize_loop.simps emit_def
  init_overlay_def Let_def service_def new_events_def
  single_node_def multi_node_def node1_def mysql_def keystone_def no_machines_def
  bare_node_def keystone_up_def keystone_up_no_machine_def all_up_def maas_empty_def
  maas_one_def all_fine_def setup_fails_def node2_def keystone_up_pending_def scp_fails_def
  add_machine_fails_def

lemma run_calls_growth:
  "\<exists>ds fs. deployed_charm_classes (run_calls cfg modules calls s) = deployed_charm_classes s @ ds \<and>
     finalized_charm_classes (run_calls cfg modules calls s) = finalized_charm_classes s @ fs"
proof (induction calls arbitrary: s)
  case Nil
  show ?case by simp
next
  case (Cons a calls)
  obtain ev js ms where a: "a = (ev, js, ms)" by (cases a)
  let ?s1 = "snd (process cfg modules ev js ms s)"
  from process_growth[OF prod.collapse[symmetric], of cfg modules ev js ms s]
  obtain ds fs where 1: "deployed_charm_classes ?s1 = deployed_charm_classes s @ ds"
    "finalized_charm_classes ?s1 = finalized_charm_classes s @ fs" by (elim exE conjE)
  from Cons.IH[of ?s1] obtain ds' fs' where
    2: "deployed_charm_classes (run_calls cfg modules calls ?s1) = deployed_charm_classes ?s1 @ ds'"
    "finalized_charm_classes (run_calls cfg modules calls ?s1) = finalized_charm_classes ?s1 @ fs'"
    by (elim exE conjE)
  from 1 2 a show ?case by simp
qed

lemma new_events_process:
  assumes "trace s' = trace s @ evs"
  shows "new_events s s' = evs"
  using assms by (simp add: new_events_def)

lemma run_calls_machine_events:
  assumes m: "machine s = Some m"
  shows "machine (run_calls cfg modules calls s) = Some m \<and>
     (\<exists>evs. trace (run_calls cfg modules calls s) = trace s @ evs \<and>
        (\<forall>e \<in> set evs. e \<noteq> AddMachine \<and> \<not> is_Run e \<and>
           (\<forall>c t. e = Setup c t \<longrightarrow> t = ''lxc:'' @ machine_id m)))"
  using m
proof (induction calls arbitrary: s)
  case Nil
  then show ?case by simp
next
  case (Cons a calls)
  obtain ev js ms where a: "a = (ev, js, ms)" by (cases a)
  let ?s1 = "snd (process cfg modules ev js ms s)"
  have p: "process cfg modules ev js ms s = (fst (process cfg modules ev js ms s), ?s1)" by simp
  from process_frame[OF p] Cons.prems have m1: "machine ?s1 = Some m" by simp
  then have t1: "lxc_target ?s1 = ''lxc:'' @ machine_id m" by (simp add: lxc_target_def)
  from process_events[OF p] obtain e1 where e1: "trace ?s1 = trace s @ e1"
    "\<forall>e \<in> set e1.
              ((e = AddMachine \<or> is_Run e) \<and> machine s = None) \<or>
              (\<exists>c \<in> set modules. c \<notin> set (deployed_charm_classes s) \<and> \<not> in_services js c \<and>
                  machine ?s1 \<noteq> None \<and> e = Setup c (lxc_target ?s1)) \<or>
              (\<exists>c \<in> set (deployed_charm_classes ?s1). c \<notin> set (finalized_charm_classes s) \<and>
                  service_up js c \<and> (e = SetRelations c \<or> e = PostProc c))"
    by (elim exE conjE)
  have ok1: "\<forall>e \<in> set e1. e \<noteq> AddMachine \<and> \<not> is_Run e \<and>
           (\<forall>c t. e = Setup c t \<longrightarrow> t = ''lxc:'' @ machine_id m)"
  proof
    fix e assume "e \<in> set e1"
    with e1(2) Cons.prems have
      "(\<exists>c. e = Setup c (lxc_target ?s1)) \<or> (\<exists>c. e = SetRelations c \<or> e = PostProc c)"
      by fastforce
    with t1 show "e \<noteq> AddMachine \<and> \<not> is_Run e \<and>
           (\<forall>c t. e = Setup c t \<longrightarrow> t = ''lxc:'' @ machine_id m)" by auto
  qed
  from Cons.IH[OF m1] obtain e2 where e2:
    "machine (run_calls cfg modules calls ?s1) = Some m"
    "trace (run_calls cfg modules calls ?s1) = trace ?s1 @ e2"
    "\<forall>e \<in> set e2. e \<noteq> AddMachine \<and> \<not> is_Run e \<and>
           (\<forall>c t. e = Setup c t \<longrightarrow> t = ''lxc:'' @ machine_id m)"
    by (elim exE conjE)
  from e1(1) e2(2) have "trace (run_calls cfg modules calls ?s1) = trace s @ (e1 @ e2)" by simp
  moreover from ok1 e2(3) have "\<forall>e \<in> set (e1 @ e2). e \<noteq> AddMachine \<and> \<not> is_Run e \<and>
           (\<forall>c t. e = Setup c t \<longrightarrow> t = ''lxc:'' @ machine_id m)" by auto
  ultimately have "\<exists>evs. trace (run_calls cfg modules calls ?s1) = trace s @ evs \<and>
        (\<forall>e \<in> set evs. e \<noteq> AddMachine \<and> \<not> is_Run e \<and>
           (\<forall>c t. e = Setup c t \<longrightarrow> t = ''lxc:'' @ machine_id m))" by blast
  with e2(1) a show ?case by simp
qed

lemma run_calls_done: "done_flag s \<Longrightarrow> run_calls cfg modules later s = s"
proof (induction later)
  case Nil
  show ?case by simp
next
  case (Cons a later)
  obtain ev js ms where a: "a = (ev, js, ms)" by (cases a)
  from Cons a show ?case by (simp add: process_done)
qed

lemma covers_iff_length:
  assumes "distinct modules" "distinct fs" "set fs \<subseteq> set modules"
  shows "set modules \<subseteq> set fs \<longleftrightarrow> length fs = length modules"
proof
  assume "set modules \<subseteq> set fs"
  with assms(3) have "set fs = set modules" by auto
  then have "card (set fs) = card (set modules)" by simp
  with assms(1,2) show "length fs = length modules" by (simp add: distinct_card)
next
  assume "length fs = length modules"
  with assms(1,2) have "card (set fs) = card (set modules)" by (simp add: distinct_card)
  with assms(3) have "set fs = set modules" by (simp add: card_subset_eq)
  then show "set modules \<subseteq> set fs" by simp
qed

section \<open>Hooks that raise\<close>

text \<open>A hook that raises is the last call of its loop, and its class is not marked.\<close>

lemma deploy_loop_raised:
  "deploy_loop ev js cs s = (r, s') \<Longrightarrow> machine s \<noteq> None \<Longrightarrow> distinct cs \<Longrightarrow>
   set cs \<inter> set (deployed_charm_classes s) = {} \<Longrightarrow>
     \<exists>evs. trace s' = trace s @ evs \<and>
       (\<forall>c t. Setup c t \<in> set evs \<and> setup_raises ev c t \<longrightarrow>
          r = Inl HookFailure \<and> c \<notin> set (deployed_charm_classes s') \<and> last evs = Setup c t) \<and>
       (r \<noteq> Inr () \<longrightarrow> evs \<noteq> [] \<and>
          (\<exists>c. last evs = Setup c (lxc_target s) \<and> setup_raises ev c (lxc_target s)))"
proof (induction cs arbitrary: s)
  case Nil
  then show ?case by (simp add: loop_simps)
next
  case (Cons c cs)
  let ?t = "lxc_target s"
  from Cons.prems(3,4) have dc: "distinct cs" and cn: "c \<notin> set cs"
    and cd: "c \<notin> set (deployed_charm_classes s)"
    and dj: "set cs \<inter> set (deployed_charm_classes s @ [c]) = {}" by auto
  consider (skip) "in_services js c"
    | (raise) "\<not> in_services js c" "setup_raises ev c ?t"
    | (ok) "\<not> in_services js c" "\<not> setup_raises ev c ?t"
    by blast
  then show ?case
  proof cases
    case skip
    let ?s1 = "s\<lparr>deployed_charm_classes := deployed_charm_classes s @ [c]\<rparr>"
    from skip Cons.prems have run: "deploy_loop ev js cs ?s1 = (r, s')" and m: "machine ?s1 \<noteq> None"
      by (simp_all add: loop_simps)
    from dj have dj1: "set cs \<inter> set (deployed_charm_classes ?s1) = {}" by simp
    from Cons.IH[OF run m dc dj1] show ?thesis by simp
  next
    case raise
    with Cons.prems have rs: "r = Inl HookFailure" "s' = emit (Setup c ?t) s"
      by (simp_all add: loop_simps)
    show ?thesis
      apply (rule exI[of _ "[Setup c ?t]"])
      using rs raise cd by simp
  next
    case ok
    let ?s1 = "(emit (Setup c ?t) s)\<lparr>deployed_charm_classes := deployed_charm_classes s @ [c]\<rparr>"
    from ok Cons.prems have run: "deploy_loop ev js cs ?s1 = (r, s')" and m: "machine ?s1 \<noteq> None"
      by (simp_all add: loop_simps)
    from dj have dj1: "set cs \<inter> set (deployed_charm_classes ?s1) = {}" by simp
    have t1: "lxc_target ?s1 = ?t" by simp
    from Cons.IH[OF run m dc dj1] obtain evs where e:
      "trace s' = trace ?s1 @ evs"
      "\<forall>c t. Setup c t \<in> set evs \<and> setup_raises ev c t \<longrightarrow>
          r = Inl HookFailure \<and> c \<notin> set (deployed_charm_classes s') \<and> last evs = Setup c t"
      "r \<noteq> Inr () \<longrightarrow> evs \<noteq> [] \<and>
          (\<exists>c. last evs = Setup c ?t \<and> setup_raises ev c ?t)"
      unfolding t1 by (elim exE conjE)
    have 1: "trace s' = trace s @ (Setup c ?t # evs)" using e(1) by simp
    have 2: "\<forall>c' t. Setup c' t \<in> set (Setup c ?t # evs) \<and> setup_raises ev c' t \<longrightarrow>
          r = Inl HookFailure \<and> c' \<notin> set (deployed_charm_classes s') \<and>
          last (Setup c ?t # evs) = Setup c' t"
    proof (intro allI impI)
      fix c' t assume h: "Setup c' t \<in> set (Setup c ?t # evs) \<and> setup_raises ev c' t"
      with ok(2) have in2: "Setup c' t \<in> set evs" by auto
      with h e(2) have "r = Inl HookFailure \<and> c' \<notin> set (deployed_charm_classes s') \<and>
          last evs = Setup c' t" by blast
      moreover from in2 have "evs \<noteq> []" by auto
      ultimately show "r = Inl HookFailure \<and> c' \<notin> set (deployed_charm_classes s') \<and>
          last (Setup c ?t # evs) = Setup c' t" by simp
    qed
    have 3: "r \<noteq> Inr () \<longrightarrow> Setup c ?t # evs \<noteq> [] \<and>
          (\<exists>c'. last (Setup c ?t # evs) = Setup c' ?t \<and> setup_raises ev c' ?t)"
      using e(3) by auto
    from 1 2 3 show ?thesis by blast
  qed
qed

lemma finalize_loop_raised:
  "finalize_loop ev js cs s = (r, s') \<Longrightarrow> distinct cs \<Longrightarrow>
   set cs \<inter> set (finalized_charm_classes s) = {} \<Longrightarrow>
     \<exists>evs. trace s' = trace s @ evs \<and>
       (\<forall>c. SetRelations c \<in> set evs \<and> set_relations_raises ev c \<longrightarrow>
          r = Inl HookFailure \<and> c \<notin> set (finalized_charm_classes s') \<and>
          last evs = SetRelations c) \<and>
       (\<forall>c. PostProc c \<in> set evs \<and> post_proc_raises ev c \<longrightarrow>
          r = Inl HookFailure \<and> c \<notin> set (finalized_charm_classes s') \<and>
          last evs = PostProc c) \<and>
       (r \<noteq> Inr () \<longrightarrow> evs \<noteq> [] \<and>
          (\<exists>c. (last evs = SetRelations c \<and> set_relations_raises ev c) \<or>
                (last evs = PostProc c \<and> post_proc_raises ev c)))"
proof (induction cs arbitrary: s)
  case Nil
  then show ?case by (simp add: loop_simps)
next
  case (Cons c cs)
  from Cons.prems(2,3) have dc: "distinct cs" and cn: "c \<notin> set cs"
    and cd: "c \<notin> set (finalized_charm_classes s)"
    and dj0: "set cs \<inter> set (finalized_charm_classes s) = {}"
    and dj: "set cs \<inter> set (finalized_charm_classes s @ [c]) = {}" by auto
  consider (skip) "\<not> service_up js c"
    | (raise1) "service_up js c" "set_relations_raises ev c"
    | (raise2) "service_up js c" "\<not> set_relations_raises ev c" "post_proc_raises ev c"
    | (ok) "service_up js c" "\<not> set_relations_raises ev c" "\<not> post_proc_raises ev c"
    by blast
  then show ?case
  proof cases
    case skip
    with Cons.prems have run: "finalize_loop ev js cs s = (r, s')" by (simp add: loop_simps)
    from Cons.IH[OF run dc dj0] show ?thesis .
  next
    case raise1
    with Cons.prems have rs: "r = Inl HookFailure" "s' = emit (SetRelations c) s"
      by (simp_all add: loop_simps)
    show ?thesis
      apply (rule exI[of _ "[SetRelations c]"])
      using rs raise1 cd by simp
  next
    case raise2
    with Cons.prems have rs: "r = Inl HookFailure"
      "s' = emit (PostProc c) (emit (SetRelations c) s)"
      by (simp_all add: loop_simps)
    show ?thesis
      apply (rule exI[of _ "[SetRelations c, PostProc c]"])
      using rs raise2 cd by simp
  next
    case ok
    let ?s1 = "(emit (PostProc c) (emit (SetRelations c) s))
                 \<lparr>finalized_charm_classes := finalized_charm_classes s @ [c]\<rparr>"
    from ok Cons.prems have run: "finalize_loop ev js cs ?s1 = (r, s')"
      by (simp_all add: loop_simps)
    from dj have dj1: "set cs \<inter> set (finalized_charm_classes ?s1) = {}" by simp
    from Cons.IH[OF run dc dj1] obtain evs where e:
      "trace s' = trace ?s1 @ evs"
      "\<forall>c. SetRelations c \<in> set evs \<and> set_relations_raises ev c \<longrightarrow>
          r = Inl HookFailure \<and> c \<notin> set (finalized_charm_classes s') \<and>
          last evs = SetRelations c"
      "\<forall>c. PostProc c \<in> set evs \<and> post_proc_raises ev c \<longrightarrow>
          r = Inl HookFailure \<and> c \<notin> set (finalized_charm_classes s') \<and>
          last evs = PostProc c"
      "r \<noteq> Inr () \<longrightarrow> evs \<noteq> [] \<and>
          (\<exists>c. (last evs = SetRelations c \<and> set_relations_raises ev c) \<or>
                (last evs = PostProc c \<and> post_proc_raises ev c))"
      by (elim exE conjE)
    let ?evs = "SetRelations c # PostProc c # evs"
    have 1: "trace s' = trace s @ ?evs" using e(1) by simp
    have 2: "\<forall>c'. SetRelations c' \<in> set ?evs \<and> set_relations_raises ev c' \<longrightarrow>
          r = Inl HookFailure \<and> c' \<notin> set (finalized_charm_classes s') \<and>
          last ?evs = SetRelations c'"
    proof (intro allI impI)
      fix c' assume h: "SetRelations c' \<in> set ?evs \<and> set_relations_raises ev c'"
      with ok(2) have in2: "SetRelations c' \<in> set evs" by auto
      with h e(2) have "r = Inl HookFailure \<and> c' \<notin> set (finalized_charm_classes s') \<and>
          last evs = SetRelations c'" by blast
      moreover from in2 have "evs \<noteq> []" by auto
      ultimately show "r = Inl HookFailure \<and> c' \<notin> set (finalized_charm_classes s') \<and>
          last ?evs = SetRelations c'" by simp
    qed
    have 3: "\<forall>c'. PostProc c' \<in> set ?evs \<and> post_proc_raises ev c' \<longrightarrow>
          r = Inl HookFailure \<and> c' \<notin> set (finalized_charm_classes s') \<and>
          last ?evs = PostProc c'"
    proof (intro allI impI)
      fix c' assume h: "PostProc c' \<in> set ?evs \<and> post_proc_raises ev c'"
      with ok(3) have in2: "PostProc c' \<in> set evs" by auto
      with h e(3) have "r = Inl HookFailure \<and> c' \<notin> set (finalized_charm_classes s') \<and>
          last evs = PostProc c'" by blast
      moreover from in2 have "evs \<noteq> []" by auto
      ultimately show "r = Inl HookFailure \<and> c' \<notin> set (finalized_charm_classes s') \<and>
          last ?evs = PostProc c'" by simp
    qed
    have 4: "r \<noteq> Inr () \<longrightarrow> ?evs \<noteq> [] \<and>
          (\<exists>c'. (last ?evs = SetRelations c' \<and> set_relations_raises ev c') \<or>
                (last ?evs = PostProc c' \<and> post_proc_raises ev c'))"
      using e(4) by auto
    from 1 2 3 4 show ?thesis by blast
  qed
qed

lemma deploy_step_raised:
  assumes d: "deploy_step ev js (sort_key deploy_priority modules) s = (r, s')"
    and m: "machine s \<noteq> None" and dm: "distinct modules"
  shows "\<exists>evs. trace s' = trace s @ evs \<and>
       (\<forall>e \<in> set evs. raised_hook ev e \<longrightarrow> r \<noteq> Inr () \<and> \<not> marked s' e \<and> last evs = e) \<and>
       (r \<noteq> Inr () \<longrightarrow> evs \<noteq> [] \<and> raised_hook ev (last evs))"
proof -
  let ?U = "filter (\<lambda>c. c \<notin> set (deployed_charm_classes s)) (sort_key deploy_priority modules)"
  show ?thesis
  proof (cases "?U = []")
    case True
    with d have "r = Inr ()" "s' = s" by (simp_all add: deploy_step_def)
    then show ?thesis by simp
  next
    case False
    let ?s0 = "s\<lparr>info_text := ''Deploying charms''\<rparr>"
    from False d have run: "deploy_loop ev js ?U ?s0 = (r, s')"
      by (simp add: deploy_step_def Let_def)
    have m0: "machine ?s0 \<noteq> None" using m by simp
    have dU: "distinct ?U" using dm by simp
    have dj: "set ?U \<inter> set (deployed_charm_classes ?s0) = {}" by auto
    have t0: "lxc_target ?s0 = lxc_target s" by simp
    from deploy_loop_raised[OF run m0 dU dj] obtain evs where e:
      "trace s' = trace ?s0 @ evs"
      "\<forall>c t. Setup c t \<in> set evs \<and> setup_raises ev c t \<longrightarrow>
          r = Inl HookFailure \<and> c \<notin> set (deployed_charm_classes s') \<and> last evs = Setup c t"
      "r \<noteq> Inr () \<longrightarrow> evs \<noteq> [] \<and>
          (\<exists>c. last evs = Setup c (lxc_target s) \<and> setup_raises ev c (lxc_target s))"
      unfolding t0 by (elim exE conjE)
    have 1: "trace s' = trace s @ evs" using e(1) by simp
    have 2: "\<forall>e \<in> set evs. raised_hook ev e \<longrightarrow> r \<noteq> Inr () \<and> \<not> marked s' e \<and> last evs = e"
    proof (intro ballI impI)
      fix x assume x: "x \<in> set evs" "raised_hook ev x"
      from deploy_step_events[OF d m] 1 obtain c' where "x = Setup c' (lxc_target s)"
        using x(1) by auto
      with x e(2) show "r \<noteq> Inr () \<and> \<not> marked s' x \<and> last evs = x" by auto
    qed
    have 3: "r \<noteq> Inr () \<longrightarrow> evs \<noteq> [] \<and> raised_hook ev (last evs)"
      using e(3) by auto
    from 1 2 3 show ?thesis by blast
  qed
qed

lemma finalize_step_raised:
  assumes f: "finalize_step ev js s = (r, s')" and dd: "distinct (deployed_charm_classes s)"
  shows "\<exists>evs. trace s' = trace s @ evs \<and>
       (\<forall>e \<in> set evs. raised_hook ev e \<longrightarrow> r \<noteq> Inr () \<and> \<not> marked s' e \<and> last evs = e) \<and>
       (r \<noteq> Inr () \<longrightarrow> evs \<noteq> [] \<and> raised_hook ev (last evs))"
proof -
  let ?U = "filter (\<lambda>c. c \<notin> set (finalized_charm_classes s)) (deployed_charm_classes s)"
  show ?thesis
  proof (cases "?U = []")
    case True
    with f have "r = Inr ()" "s' = s" by (simp_all add: finalize_step_def)
    then show ?thesis by simp
  next
    case False
    let ?s0 = "s\<lparr>info_text := ''Setting charm relations''\<rparr>"
    from False f have run: "finalize_loop ev js ?U ?s0 = (r, s')"
      by (simp add: finalize_step_def Let_def)
    have dU: "distinct ?U" using dd by simp
    have dj: "set ?U \<inter> set (finalized_charm_classes ?s0) = {}" by auto
    from finalize_loop_raised[OF run dU dj] obtain evs where e:
      "trace s' = trace ?s0 @ evs"
      "\<forall>c. SetRelations c \<in> set evs \<and> set_relations_raises ev c \<longrightarrow>
          r = Inl HookFailure \<and> c \<notin> set (finalized_charm_classes s') \<and>
          last evs = SetRelations c"
      "\<forall>c. PostProc c \<in> set evs \<and> post_proc_raises ev c \<longrightarrow>
          r = Inl HookFailure \<and> c \<notin> set (finalized_charm_classes s') \<and>
          last evs = PostProc c"
      "r \<noteq> Inr () \<longrightarrow> evs \<noteq> [] \<and>
          (\<exists>c. (last evs = SetRelations c \<and> set_relations_raises ev c) \<or>
                (last evs = PostProc c \<and> post_proc_raises ev c))"
      by (elim exE conjE)
    have 1: "trace s' = trace s @ evs" using e(1) by simp
    have 2: "\<forall>e \<in> set evs. raised_hook ev e \<longrightarrow> r \<noteq> Inr () \<and> \<not> marked s' e \<and> last evs = e"
    proof (intro ballI impI)
      fix x assume x: "x \<in> set evs" "raised_hook ev x"
      from finalize_step_events[OF f] 1 obtain c where "x = SetRelations c \<or> x = PostProc c"
        using x(1) by auto
      with x e(2,3) show "r \<noteq> Inr () \<and> \<not> marked s' x \<and> last evs = x" by auto
    qed
    have 3: "r \<noteq> Inr () \<longrightarrow> evs \<noteq> [] \<and> raised_hook ev (last evs)"
      using e(4) by auto
    from 1 2 3 show ?thesis by blast
  qed
qed

lemma not_raised_hook: "e = AddMachine \<or> is_Run e \<Longrightarrow> \<not> raised_hook ev e"
  by (cases e) auto

lemma process_hooks:
  assumes p: "process cfg modules ev js ms s = (r, s')" and dm: "distinct modules"
    and dd: "distinct (deployed_charm_classes s)"
  shows "\<exists>evs. trace s' = trace s @ evs \<and>
       (\<forall>e \<in> set evs. raised_hook ev e \<longrightarrow>
          r = Inl HookFailure \<and> \<not> marked s' e \<and> last evs = e) \<and>
       (r = Inl HookFailure \<longrightarrow> evs \<noteq> [] \<and> raised_hook ev (last evs) \<and> \<not> done_flag s')"
proof (cases "done_flag s")
  case True
  with p have "s' = s" "r = Inr False" by (simp_all add: process_def)
  then show ?thesis by simp
next
  case False
  note fr = process_frame[OF p]
  from fr False have nd: "r = Inl HookFailure \<longrightarrow> \<not> done_flag s'" by auto
  from p False show ?thesis
  proof (cases rule: process_cases)
    case (acquire_raise e)
    from acquire_controller_char[OF acquire_raise(1)] obtain ea where
      ea: "trace s' = trace s @ ea" "\<forall>e \<in> set ea. e = AddMachine \<or> is_Run e"
      and e: "e = ClientFailure \<or> e = RunFailure" by auto
    from ea(2) have "\<forall>e \<in> set ea. \<not> raised_hook ev e" using not_raised_hook by blast
    with ea(1) e acquire_raise(2) show ?thesis by auto
  next
    case wait
    from acquire_controller_char[OF wait(1)] obtain ea where
      ea: "trace s' = trace s @ ea" "\<forall>e \<in> set ea. e = AddMachine \<or> is_Run e" by auto
    from ea(2) have "\<forall>e \<in> set ea. \<not> raised_hook ev e" using not_raised_hook by blast
    with ea(1) wait(2) show ?thesis by auto
  next
    case (deploy_raise s1 e)
    note a = acquire_controller_frame[OF deploy_raise(1)]
    from a(5) have m1: "machine s1 \<noteq> None" by simp
    from acquire_controller_char[OF deploy_raise(1)] obtain ea where
      ea: "trace s1 = trace s @ ea" "\<forall>e \<in> set ea. e = AddMachine \<or> is_Run e" by auto
    from ea(2) have na: "\<forall>e \<in> set ea. \<not> raised_hook ev e" using not_raised_hook by blast
    from deploy_step_char[OF deploy_raise(2) m1] have e: "e = HookFailure" by auto
    from deploy_step_raised[OF deploy_raise(2) m1 dm] obtain ed where ed:
      "trace s' = trace s1 @ ed"
      "\<forall>x \<in> set ed. raised_hook ev x \<longrightarrow> \<not> marked s' x \<and> last ed = x"
      "ed \<noteq> []" "raised_hook ev (last ed)" by auto
    have 1: "trace s' = trace s @ (ea @ ed)" using ea(1) ed(1) by simp
    have 2: "\<forall>x \<in> set (ea @ ed). raised_hook ev x \<longrightarrow>
          r = Inl HookFailure \<and> \<not> marked s' x \<and> last (ea @ ed) = x"
      using na ed(2,3) e deploy_raise(3) by auto
    have 3: "r = Inl HookFailure \<longrightarrow> ea @ ed \<noteq> [] \<and> raised_hook ev (last (ea @ ed)) \<and>
          \<not> done_flag s'"
      using ed(3,4) nd by simp
    from 1 2 3 show ?thesis by blast
  next
    case (finalize_raise s1 s2 e)
    note a = acquire_controller_frame[OF finalize_raise(1)]
    from a(5) have m1: "machine s1 \<noteq> None" by simp
    from acquire_controller_char[OF finalize_raise(1)] obtain ea where
      ea: "trace s1 = trace s @ ea" "\<forall>e \<in> set ea. e = AddMachine \<or> is_Run e" by auto
    from ea(2) have na: "\<forall>e \<in> set ea. \<not> raised_hook ev e" using not_raised_hook by blast
    from finalize_step_char[OF finalize_raise(3)] have e: "e = HookFailure" by auto
    from deploy_step_raised[OF finalize_raise(2) m1 dm] obtain ed where ed:
      "trace s2 = trace s1 @ ed" "\<forall>x \<in> set ed. \<not> raised_hook ev x" by auto
    from deploy_step_growth[OF finalize_raise(2) m1] dm dd a(2)
    have d2: "distinct (deployed_charm_classes s2)" by auto
    from finalize_step_raised[OF finalize_raise(3) d2] obtain ef where ef:
      "trace s' = trace s2 @ ef"
      "\<forall>x \<in> set ef. raised_hook ev x \<longrightarrow> \<not> marked s' x \<and> last ef = x"
      "ef \<noteq> []" "raised_hook ev (last ef)" by auto
    have 1: "trace s' = trace s @ (ea @ ed @ ef)" using ea(1) ed(1) ef(1) by simp
    have 2: "\<forall>x \<in> set (ea @ ed @ ef). raised_hook ev x \<longrightarrow>
          r = Inl HookFailure \<and> \<not> marked s' x \<and> last (ea @ ed @ ef) = x"
      using na ed(2) ef(2,3) e finalize_raise(4) by auto
    have 3: "r = Inl HookFailure \<longrightarrow> ea @ ed @ ef \<noteq> [] \<and>
          raised_hook ev (last (ea @ ed @ ef)) \<and> \<not> done_flag s'"
      using ef(3,4) nd by simp
    from 1 2 3 show ?thesis by blast
  next
    case (continue s1 s2)
    note a = acquire_controller_frame[OF continue(1)]
    from a(5) have m1: "machine s1 \<noteq> None" by simp
    from acquire_controller_char[OF continue(1)] obtain ea where
      ea: "trace s1 = trace s @ ea" "\<forall>e \<in> set ea. e = AddMachine \<or> is_Run e" by auto
    from ea(2) have na: "\<forall>e \<in> set ea. \<not> raised_hook ev e" using not_raised_hook by blast
    from deploy_step_raised[OF continue(2) m1 dm] obtain ed where ed:
      "trace s2 = trace s1 @ ed" "\<forall>x \<in> set ed. \<not> raised_hook ev x" by auto
    from deploy_step_growth[OF continue(2) m1] dm dd a(2)
    have d2: "distinct (deployed_charm_classes s2)" by auto
    from finalize_step_raised[OF continue(3) d2] obtain ef where ef:
      "trace s' = trace s2 @ ef" "\<forall>x \<in> set ef. \<not> raised_hook ev x" by auto
    have 1: "trace s' = trace s @ (ea @ ed @ ef)" using ea(1) ed(1) ef(1) by simp
    have 2: "\<forall>x \<in> set (ea @ ed @ ef). \<not> raised_hook ev x" using na ed(2) ef(2) by auto
    from 1 2 continue(5) show ?thesis by blast
  next
    case (finish s1 s2 s3)
    note a = acquire_controller_frame[OF finish(1)]
    from a(5) have m1: "machine s1 \<noteq> None" by simp
    from acquire_controller_char[OF finish(1)] obtain ea where
      ea: "trace s1 = trace s @ ea" "\<forall>e \<in> set ea. e = AddMachine \<or> is_Run e" by auto
    from ea(2) have na: "\<forall>e \<in> set ea. \<not> raised_hook ev e" using not_raised_hook by blast
    from deploy_step_raised[OF finish(2) m1 dm] obtain ed where ed:
      "trace s2 = trace s1 @ ed" "\<forall>x \<in> set ed. \<not> raised_hook ev x" by auto
    from deploy_step_growth[OF finish(2) m1] dm dd a(2)
    have d2: "distinct (deployed_charm_classes s2)" by auto
    from finalize_step_raised[OF finish(3) d2] obtain ef where ef:
      "trace s3 = trace s2 @ ef" "\<forall>x \<in> set ef. \<not> raised_hook ev x" by auto
    have 1: "trace s' = trace s @ (ea @ ed @ ef)" using ea(1) ed(1) ef(1) finish(6) by simp
    have 2: "\<forall>x \<in> set (ea @ ed @ ef). \<not> raised_hook ev x" using na ed(2) ef(2) by auto
    from 1 2 finish(5) show ?thesis by blast
  qed
qed

section \<open>How far the deployment loop gets\<close>

lemma deploy_loop_mono:
  "deploy_loop ev js cs s = (r, s') \<Longrightarrow> machine s \<noteq> None \<Longrightarrow>
     set (deployed_charm_classes s) \<subseteq> set (deployed_charm_classes s')"
  by (drule (1) deploy_loop_char) auto

lemma deploy_loop_marks:
  "deploy_loop ev js cs s = (r, s') \<Longrightarrow> machine s \<noteq> None \<Longrightarrow> c \<in> set cs \<Longrightarrow>
   c \<notin> set (deployed_charm_classes s) \<Longrightarrow> in_services js c \<Longrightarrow>
     (c \<in> set (deployed_charm_classes s') \<longleftrightarrow>
        (\<forall>d \<in> set (takeWhile (\<lambda>d. d \<noteq> c) cs).
           in_services js d \<or> \<not> setup_raises ev d (lxc_target s)))"
proof (induction cs arbitrary: s)
  case Nil
  then show ?case by simp
next
  case (Cons x cs)
  let ?t = "lxc_target s"
  show ?case
  proof (cases "x = c")
    case True
    let ?s1 = "s\<lparr>deployed_charm_classes := deployed_charm_classes s @ [c]\<rparr>"
    from True Cons.prems have run: "deploy_loop ev js cs ?s1 = (r, s')" and m: "machine ?s1 \<noteq> None"
      by (simp_all add: loop_simps)
    from deploy_loop_mono[OF run m] have "c \<in> set (deployed_charm_classes s')" by simp
    with True show ?thesis by simp
  next
    case False
    with Cons.prems(3) have cin: "c \<in> set cs" by simp
    consider (skip) "in_services js x"
      | (raise) "\<not> in_services js x" "setup_raises ev x ?t"
      | (ok) "\<not> in_services js x" "\<not> setup_raises ev x ?t"
      by blast
    then show ?thesis
    proof cases
      case skip
      let ?s1 = "s\<lparr>deployed_charm_classes := deployed_charm_classes s @ [x]\<rparr>"
      from skip Cons.prems have run: "deploy_loop ev js cs ?s1 = (r, s')" and m: "machine ?s1 \<noteq> None"
        by (simp_all add: loop_simps)
      from False Cons.prems(4) have cn: "c \<notin> set (deployed_charm_classes ?s1)" by simp
      from Cons.IH[OF run m cin cn Cons.prems(5)] False skip show ?thesis by simp
    next
      case raise
      with Cons.prems have "s' = emit (Setup x ?t) s" by (simp_all add: loop_simps)
      with Cons.prems(4) raise False show ?thesis by auto
    next
      case ok
      let ?s1 = "(emit (Setup x ?t) s)\<lparr>deployed_charm_classes := deployed_charm_classes s @ [x]\<rparr>"
      from ok Cons.prems have run: "deploy_loop ev js cs ?s1 = (r, s')" and m: "machine ?s1 \<noteq> None"
        by (simp_all add: loop_simps)
      from False Cons.prems(4) have cn: "c \<notin> set (deployed_charm_classes ?s1)" by simp
      from Cons.IH[OF run m cin cn Cons.prems(5)] False ok show ?thesis by simp
    qed
  qed
qed

lemma deploy_step_marks:
  assumes d: "deploy_step ev js (sort_key deploy_priority modules) s = (r, s')"
    and m: "machine s \<noteq> None" and cm: "c \<in> set modules"
    and cd: "c \<notin> set (deployed_charm_classes s)" and cs: "in_services js c"
  shows "(c \<in> set (deployed_charm_classes s') \<longleftrightarrow>
        (\<forall>d \<in> set (takeWhile (\<lambda>d. d \<noteq> c)
             (filter (\<lambda>d. d \<notin> set (deployed_charm_classes s))
                (sort_key deploy_priority modules))).
           in_services js d \<or> \<not> setup_raises ev d (lxc_target s))) \<and>
         (r = Inr () \<longrightarrow> c \<in> set (deployed_charm_classes s'))"
proof -
  let ?U = "filter (\<lambda>d. d \<notin> set (deployed_charm_classes s)) (sort_key deploy_priority modules)"
  let ?s0 = "s\<lparr>info_text := ''Deploying charms''\<rparr>"
  from cm cd have cU: "c \<in> set ?U" by simp
  from length_pos_if_in_set[OF cU] have "?U \<noteq> []" by simp
  with d have run: "deploy_loop ev js ?U ?s0 = (r, s')" by (simp add: deploy_step_def Let_def)
  have m0: "machine ?s0 \<noteq> None" using m by simp
  have cd0: "c \<notin> set (deployed_charm_classes ?s0)" using cd by simp
  have t0: "lxc_target ?s0 = lxc_target s" by simp
  note 1 = deploy_loop_marks[OF run m0 cU cd0 cs, unfolded t0]
  from deploy_loop_char[OF run m0] obtain k where
    k: "deployed_charm_classes s' = deployed_charm_classes ?s0 @ take k ?U"
    "r = Inr () \<longrightarrow> k = length ?U" by auto
  from k cU have 2: "r = Inr () \<longrightarrow> c \<in> set (deployed_charm_classes s')" by auto
  from 1 2 show ?thesis by (intro conjI)
qed

lemma machine_None_update: "machine s = None \<Longrightarrow> s\<lparr>machine := None\<rparr> = s"
  by (cases s) simp

lemma process_machine:
  assumes nd: "\<not> done_flag s" and a: "acquire_controller ev cfg js ms s = (ra, s1)"
  shows "machine (snd (process cfg modules ev js ms s)) = machine s1"
proof -
  let ?s' = "snd (process cfg modules ev js ms s)"
  have p: "process cfg modules ev js ms s = (fst (process cfg modules ev js ms s), ?s')" by simp
  from p nd show ?thesis
  proof (cases rule: process_cases)
    case (acquire_raise e)
    with a show ?thesis by simp
  next
    case wait
    with a show ?thesis by simp
  next
    case (deploy_raise t1 e)
    with a have t: "t1 = s1" by simp
    note af = acquire_controller_frame[OF deploy_raise(1)]
    from af(5) have m1: "machine t1 \<noteq> None" by simp
    from deploy_step_frame(1)[OF deploy_raise(2) m1] t show ?thesis by simp
  next
    case (finalize_raise t1 t2 e)
    with a have t: "t1 = s1" by simp
    note af = acquire_controller_frame[OF finalize_raise(1)]
    from af(5) have m1: "machine t1 \<noteq> None" by simp
    from deploy_step_frame(1)[OF finalize_raise(2) m1]
      finalize_step_frame(1)[OF finalize_raise(3)] t show ?thesis by simp
  next
    case (continue t1 t2)
    with a have t: "t1 = s1" by simp
    note af = acquire_controller_frame[OF continue(1)]
    from af(5) have m1: "machine t1 \<noteq> None" by simp
    from deploy_step_frame(1)[OF continue(2) m1]
      finalize_step_frame(1)[OF continue(3)] t show ?thesis by simp
  next
    case (finish t1 t2 t3)
    with a have t: "t1 = s1" by simp
    note af = acquire_controller_frame[OF finish(1)]
    from af(5) have m1: "machine t1 \<noteq> None" by simp
    from deploy_step_frame(1)[OF finish(2) m1]
      finalize_step_frame(1)[OF finish(3)] finish(6) t show ?thesis by simp
  qed
qed

lemma acquire_started_machine:
  assumes "MULTI_SYSTEM cfg" "machine s = None"
    "filter (\<lambda>m. agent_state m = ''started'') (machines_allocated js) = m # rest"
  shows "machine (snd (acquire_controller ev cfg js ms s)) = Some m"
proof -
  from assms(3) have ne: "machines_allocated js \<noteq> []" by auto
  with assms have g: "get_controller_machine ev cfg js ms s = (Inr (Some m), s)"
    by (simp add: get_controller_machine_def get_started_machine_def)
  let ?s2 = "s\<lparr>machine := Some m\<rparr>"
  show ?thesis
  proof (cases "SINGLE_SYSTEM cfg \<and> \<not> single_net_configured s")
    case True
    obtain rc s3 where c: "configure_lxc_network ev ?s2 = (rc, s3)"
      by (cases "configure_lxc_network ev ?s2")
    have m2: "machine ?s2 = Some m" by simp
    from configure_lxc_network_char[OF c m2] have m3: "machine s3 = Some m" by simp
    from assms(2) g True c have "snd (acquire_controller ev cfg js ms s) = s3"
      by (cases rc) (simp_all add: acquire_controller_def)
    with m3 show ?thesis by simp
  next
    case False
    with assms(2) g have "snd (acquire_controller ev cfg js ms s) = ?s2"
      by (auto simp add: acquire_controller_def)
    then show ?thesis by simp
  qed
qed

section \<open>A hook that raises\<close>

text \<open>
Claim C1, as the code has it. \<open>_process\<close> has no \<open>try\<close> statement. The charm modules
  export distinct classes, and the overlay is one reached by any sequence of calls. In a
  call of \<open>process\<close>, a \<open>setup\<close>, \<open>set_relations\<close> or \<open>post_proc\<close> that is invoked and raises
  is the last thing the call does: the failure reaches the caller of \<open>process\<close>, and the
  class is not appended to \<open>deployed_charm_classes\<close> (for \<open>setup\<close>) or to
  \<open>finalized_charm_classes\<close> (for the two relation hooks). Conversely, a call that ends with
  a hook failure ended in a hook that raised, and it does not set \<open>done\<close>.
\<close>

theorem hook_failure_reaches_the_caller:
  assumes dm: "distinct modules"
    and reach: "s = run_calls cfg modules calls (init_overlay cfg)"
    and p: "process cfg modules ev js ms s = (r, s')"
  shows "(\<forall>c t. Setup c t \<in> set (new_events s s') \<and> setup_raises ev c t \<longrightarrow>
            r = Inl HookFailure \<and> c \<notin> set (deployed_charm_classes s') \<and>
            last (trace s') = Setup c t) \<and>
         (\<forall>c. SetRelations c \<in> set (new_events s s') \<and> set_relations_raises ev c \<longrightarrow>
            r = Inl HookFailure \<and> c \<notin> set (finalized_charm_classes s') \<and>
            last (trace s') = SetRelations c) \<and>
         (\<forall>c. PostProc c \<in> set (new_events s s') \<and> post_proc_raises ev c \<longrightarrow>
            r = Inl HookFailure \<and> c \<notin> set (finalized_charm_classes s') \<and>
            last (trace s') = PostProc c) \<and>
         (r = Inl HookFailure \<longrightarrow>
            \<not> done_flag s' \<and> new_events s s' \<noteq> [] \<and>
            ((\<exists>c t. last (trace s') = Setup c t \<and> setup_raises ev c t) \<or>
             (\<exists>c. last (trace s') = SetRelations c \<and> set_relations_raises ev c) \<or>
             (\<exists>c. last (trace s') = PostProc c \<and> post_proc_raises ev c)))"
proof -
  have "overlay_inv modules s" unfolding reach by (rule reachable_inv)
  with dm have dd: "distinct (deployed_charm_classes s)" by (simp add: overlay_inv_def)
  from process_hooks[OF p dm dd] obtain evs where e: "trace s' = trace s @ evs"
    "\<forall>e \<in> set evs. raised_hook ev e \<longrightarrow>
          r = Inl HookFailure \<and> \<not> marked s' e \<and> last evs = e"
    "r = Inl HookFailure \<longrightarrow> evs \<noteq> [] \<and> raised_hook ev (last evs) \<and> \<not> done_flag s'"
    by (elim exE conjE)
  note n = new_events_process[OF e(1)]
  have l: "evs \<noteq> [] \<Longrightarrow> last (trace s') = last evs" using e(1) by simp
  have 1: "\<forall>c t. Setup c t \<in> set evs \<and> setup_raises ev c t \<longrightarrow>
            r = Inl HookFailure \<and> c \<notin> set (deployed_charm_classes s') \<and>
            last (trace s') = Setup c t"
  proof (intro allI impI)
    fix c t assume h: "Setup c t \<in> set evs \<and> setup_raises ev c t"
    then have "evs \<noteq> []" by auto
    from l[OF this] h e(2)[rule_format, of "Setup c t"]
    show "r = Inl HookFailure \<and> c \<notin> set (deployed_charm_classes s') \<and>
            last (trace s') = Setup c t" by simp
  qed
  have 2: "\<forall>c. SetRelations c \<in> set evs \<and> set_relations_raises ev c \<longrightarrow>
            r = Inl HookFailure \<and> c \<notin> set (finalized_charm_classes s') \<and>
            last (trace s') = SetRelations c"
  proof (intro allI impI)
    fix c assume h: "SetRelations c \<in> set evs \<and> set_relations_raises ev c"
    then have "evs \<noteq> []" by auto
    from l[OF this] h e(2)[rule_format, of "SetRelations c"]
    show "r = Inl HookFailure \<and> c \<notin> set (finalized_charm_classes s') \<and>
            last (trace s') = SetRelations c" by simp
  qed
  have 3: "\<forall>c. PostProc c \<in> set evs \<and> post_proc_raises ev c \<longrightarrow>
            r = Inl HookFailure \<and> c \<notin> set (finalized_charm_classes s') \<and>
            last (trace s') = PostProc c"
  proof (intro allI impI)
    fix c assume h: "PostProc c \<in> set evs \<and> post_proc_raises ev c"
    then have "evs \<noteq> []" by auto
    from l[OF this] h e(2)[rule_format, of "PostProc c"]
    show "r = Inl HookFailure \<and> c \<notin> set (finalized_charm_classes s') \<and>
            last (trace s') = PostProc c" by simp
  qed
  have 4: "r = Inl HookFailure \<longrightarrow>
            \<not> done_flag s' \<and> evs \<noteq> [] \<and>
            ((\<exists>c t. last (trace s') = Setup c t \<and> setup_raises ev c t) \<or>
             (\<exists>c. last (trace s') = SetRelations c \<and> set_relations_raises ev c) \<or>
             (\<exists>c. last (trace s') = PostProc c \<and> post_proc_raises ev c))"
  proof
    assume "r = Inl HookFailure"
    with e(3) have ne: "evs \<noteq> []" and rh: "raised_hook ev (last evs)" and nd: "\<not> done_flag s'"
      by simp_all
    from rh have "(\<exists>c t. last evs = Setup c t \<and> setup_raises ev c t) \<or>
             (\<exists>c. last evs = SetRelations c \<and> set_relations_raises ev c) \<or>
             (\<exists>c. last evs = PostProc c \<and> post_proc_raises ev c)"
      by (cases "last evs") auto
    with ne nd l[OF ne] show "\<not> done_flag s' \<and> evs \<noteq> [] \<and>
            ((\<exists>c t. last (trace s') = Setup c t \<and> setup_raises ev c t) \<or>
             (\<exists>c. last (trace s') = SetRelations c \<and> set_relations_raises ev c) \<or>
             (\<exists>c. last (trace s') = PostProc c \<and> post_proc_raises ev c))" by simp
  qed
  from 1 2 3 4 show ?thesis unfolding n by (intro conjI)
qed

theorem hook_failure_reaches_the_caller_witness:
  "distinct [mysql] \<and>
   Setup mysql ''lxc:1'' \<in> set (new_events (init_overlay multi_node)
      (snd (process multi_node [mysql] setup_fails bare_node maas_empty (init_overlay multi_node)))) \<and>
   setup_raises setup_fails mysql ''lxc:1'' \<and>
   fst (process multi_node [mysql] setup_fails bare_node maas_empty (init_overlay multi_node))
     = Inl HookFailure \<and>
   mysql \<notin> set (deployed_charm_classes
      (snd (process multi_node [mysql] setup_fails bare_node maas_empty (init_overlay multi_node)))) \<and>
   last (trace
      (snd (process multi_node [mysql] setup_fails bare_node maas_empty (init_overlay multi_node))))
     = Setup mysql ''lxc:1''"
proof -
  have d: "distinct [mysql]" by simp
  have r: "init_overlay multi_node = run_calls multi_node [mysql] [] (init_overlay multi_node)"
    by simp
  note w = hook_failure_reaches_the_caller[OF d r prod.collapse[symmetric],
      where ev = setup_fails and js = bare_node and ms = maas_empty,
      THEN conjunct1, THEN spec, THEN spec, of mysql "''lxc:1''"]
  have h: "Setup mysql ''lxc:1'' \<in> set (new_events (init_overlay multi_node)
      (snd (process multi_node [mysql] setup_fails bare_node maas_empty (init_overlay multi_node)))) \<and>
   setup_raises setup_fails mysql ''lxc:1''"
    by (simp add: eval_defs)
  from w[THEN mp, OF h] h d show ?thesis by simp
qed

text \<open>
  Claim C1 as stated fails: \<open>setup\<close> of the only charm raises, the failure leaves
  \<open>process\<close>, and the class is not in \<open>deployed_charm_classes\<close>.
\<close>

theorem setup_failure_not_caught_counterexample:
  "process multi_node [mysql] setup_fails bare_node maas_empty (init_overlay multi_node) =
     (Inl HookFailure,
      \<lparr> done_flag = False, machine = Some node1, deployed_charm_classes = [],
        finalized_charm_classes = [], single_net_configured = False,
        info_text = ''Deploying charms'', trace = [Setup mysql ''lxc:1''] \<rparr>)"
  by (simp add: eval_defs)

section \<open>When \<open>process\<close> returns \<open>False\<close>\<close>

text \<open>
Claim C2, as the code has it. The charm modules export distinct classes. A call of \<open>process\<close> on
  an overlay reached by any sequence of calls returns \<open>False\<close> exactly when it returns
  with a controller machine chosen and every registered class in
  \<open>finalized_charm_classes\<close>; when at least one class is registered, exactly when every
  registered class is in \<open>finalized_charm_classes\<close>. Once it has returned \<open>False\<close>, every
  later call returns \<open>False\<close> and leaves the overlay, its trace of calls included, as it
  is: no machine is looked for, no hook is invoked.
\<close>

theorem returns_false_iff_machine_and_all_finalized:
  assumes d: "distinct modules"
    and p: "process cfg modules ev js ms (run_calls cfg modules calls (init_overlay cfg)) = (r, s')"
  shows "(r = Inr False \<longleftrightarrow>
            (\<exists>b. r = Inr b) \<and> machine s' \<noteq> None \<and>
            set modules \<subseteq> set (finalized_charm_classes s')) \<and>
         (modules \<noteq> [] \<longrightarrow>
            (r = Inr False \<longleftrightarrow> set modules \<subseteq> set (finalized_charm_classes s'))) \<and>
         (r = Inr False \<longrightarrow>
            (\<forall>ev' js' ms'. process cfg modules ev' js' ms' s' = (Inr False, s')) \<and>
            (\<forall>later. run_calls cfg modules later s' = s'))"
proof -
  let ?s = "run_calls cfg modules calls (init_overlay cfg)"
  have i: "overlay_inv modules ?s" by (rule reachable_inv)
  have i': "overlay_inv modules s'" by (rule process_inv[OF p i])
  from i' d have sub: "set (finalized_charm_classes s') \<subseteq> set (deployed_charm_classes s')"
    "set (deployed_charm_classes s') \<subseteq> set modules"
    and dis: "distinct (deployed_charm_classes s')" "distinct (finalized_charm_classes s')"
    and mn: "machine s' = None \<longrightarrow> deployed_charm_classes s' = []"
    by (simp_all add: overlay_inv_def)
  from i have mn0: "machine ?s = None \<longrightarrow> deployed_charm_classes ?s = [] \<and> \<not> done_flag ?s"
    and dl: "done_flag ?s \<longrightarrow> length (finalized_charm_classes ?s) = length modules"
    and sub0: "set (finalized_charm_classes ?s) \<subseteq> set (deployed_charm_classes ?s)"
    by (simp_all add: overlay_inv_def)
  from sub have sub2: "set (finalized_charm_classes s') \<subseteq> set modules" by auto
  note L = covers_iff_length[OF d dis(2) sub2]
  note fr = process_frame[OF p]
  have fwd: "machine s' \<noteq> None \<and> length (finalized_charm_classes s') = length modules"
    if rf: "r = Inr False"
  proof (cases "done_flag ?s")
    case True
    with p have "s' = ?s" by (simp add: process_def)
    with True mn0 dl show ?thesis by auto
  next
    case False
    with fr rf show ?thesis by simp
  qed
  have bwd: "r = Inr False"
    if "r = Inr b" "machine s' \<noteq> None" "length (finalized_charm_classes s') = length modules" for b
  proof (cases b)
    case True
    with that fr show ?thesis by simp
  next
    case False
    with that show ?thesis by simp
  qed
  have c1: "r = Inr False \<longleftrightarrow>
            (\<exists>b. r = Inr b) \<and> machine s' \<noteq> None \<and>
            set modules \<subseteq> set (finalized_charm_classes s')"
    unfolding L using fwd bwd by blast
  have ne: "r = Inr False"
    if m: "modules \<noteq> []" and c: "set modules \<subseteq> set (finalized_charm_classes s')"
  proof -
    from m c have "finalized_charm_classes s' \<noteq> []" by auto
    with sub(1) have "deployed_charm_classes s' \<noteq> []" by auto
    with mn have ms': "machine s' \<noteq> None" by auto
    show ?thesis
    proof (cases r)
      case (Inr b)
      with c ms' c1 show ?thesis by simp
    next
      case (Inl e)
      with p have pe: "process cfg modules ev js ms ?s = (Inl e, s')" by simp
      from process_raise[OF pe] consider
        (client) "machine s' = None"
        | (run) "machine ?s = None" "finalized_charm_classes s' = finalized_charm_classes ?s"
        | (dep) c where "c \<in> set modules" "distinct modules \<longrightarrow> c \<notin> set (deployed_charm_classes s')"
        | (rel) c where "c \<in> set (deployed_charm_classes s')"
            "distinct (deployed_charm_classes s') \<longrightarrow> c \<notin> set (finalized_charm_classes s')"
        by (elim disjE conjE bexE) blast+
      then have False
      proof cases
        case client
        with ms' show False by simp
      next
        case run
        with mn0 sub0 have "finalized_charm_classes s' = []" by simp
        with c m show False by simp
      next
        case (dep c)
        with dep d sub(1) have "c \<notin> set (finalized_charm_classes s')" by auto
        with dep(1) c show False by auto
      next
        case (rel c)
        with dis(1) sub(2) have "c \<notin> set (finalized_charm_classes s')" "c \<in> set modules" by auto
        with c show False by auto
      qed
      then show ?thesis ..
    qed
  qed
  have c2: "modules \<noteq> [] \<longrightarrow>
            (r = Inr False \<longleftrightarrow> set modules \<subseteq> set (finalized_charm_classes s'))"
    using ne c1 by blast
  have c3: "r = Inr False \<longrightarrow>
            (\<forall>ev' js' ms'. process cfg modules ev' js' ms' s' = (Inr False, s')) \<and>
            (\<forall>later. run_calls cfg modules later s' = s')"
  proof
    assume "r = Inr False"
    with fr have "done_flag s'" by simp
    then show "(\<forall>ev' js' ms'. process cfg modules ev' js' ms' s' = (Inr False, s')) \<and>
            (\<forall>later. run_calls cfg modules later s' = s')"
      by (simp add: process_done run_calls_done)
  qed
  from c1 c2 c3 show ?thesis by (intro conjI)
qed

theorem returns_false_iff_machine_and_all_finalized_witness:
  "distinct [mysql] \<and>
   fst (process single_node [mysql] all_fine all_up maas_empty
          (run_calls single_node [mysql] [(setup_fails, bare_node, maas_empty)]
             (init_overlay single_node))) = Inr False \<and>
   machine (snd (process single_node [mysql] all_fine all_up maas_empty
          (run_calls single_node [mysql] [(setup_fails, bare_node, maas_empty)]
             (init_overlay single_node)))) \<noteq> None \<and>
   set [mysql] \<subseteq> set (finalized_charm_classes
       (snd (process single_node [mysql] all_fine all_up maas_empty
          (run_calls single_node [mysql] [(setup_fails, bare_node, maas_empty)]
             (init_overlay single_node))))) \<and>
   fst (process single_node [mysql] setup_fails no_machines maas_empty
       (snd (process single_node [mysql] all_fine all_up maas_empty
          (run_calls single_node [mysql] [(setup_fails, bare_node, maas_empty)]
             (init_overlay single_node))))) = Inr False"
proof -
  have d: "distinct [mysql]" by simp
  note w = returns_false_iff_machine_and_all_finalized[OF d prod.collapse[symmetric],
      where cfg = single_node and ev = all_fine and js = all_up and ms = maas_empty
        and calls = "[(setup_fails, bare_node, maas_empty)]"]
  have r: "fst (process single_node [mysql] all_fine all_up maas_empty
          (run_calls single_node [mysql] [(setup_fails, bare_node, maas_empty)]
             (init_overlay single_node))) = Inr False"
    by (simp add: eval_defs)
  from w r d show ?thesis by simp
qed

theorem returns_true_with_empty_registry_counterexample:
  "fst (process multi_node [] all_fine no_machines maas_empty (init_overlay multi_node)) = Inr True \<and>
   set ([] :: charm_class list) \<subseteq> set (finalized_charm_classes
     (snd (process multi_node [] all_fine no_machines maas_empty (init_overlay multi_node))))"
  by (simp add: eval_defs)

section \<open>The two lists only grow\<close>

text \<open>
  Claim C3. Take the overlay after any sequence of calls of \<open>process\<close>, whatever each
  call met and whether it returned or raised. One more call, and any further sequence of
  calls, only append to \<open>deployed_charm_classes\<close> and to \<open>finalized_charm_classes\<close>:
  nothing is removed. After every call each finalized class is a deployed one and each
  deployed class is a registered one.
\<close>

theorem lists_only_grow_and_chain_holds:
  "let s = run_calls cfg modules calls (init_overlay cfg);
       s1 = snd (process cfg modules ev js ms s);
       s2 = run_calls cfg modules later s
   in (\<exists>ds fs. deployed_charm_classes s1 = deployed_charm_classes s @ ds \<and>
                finalized_charm_classes s1 = finalized_charm_classes s @ fs) \<and>
      (\<exists>ds fs. deployed_charm_classes s2 = deployed_charm_classes s @ ds \<and>
                finalized_charm_classes s2 = finalized_charm_classes s @ fs) \<and>
      set (finalized_charm_classes s1) \<subseteq> set (deployed_charm_classes s1) \<and>
      set (deployed_charm_classes s1) \<subseteq> set modules \<and>
      set (finalized_charm_classes s2) \<subseteq> set (deployed_charm_classes s2) \<and>
      set (deployed_charm_classes s2) \<subseteq> set modules"
proof -
  let ?s = "run_calls cfg modules calls (init_overlay cfg)"
  let ?s1 = "snd (process cfg modules ev js ms ?s)"
  let ?s2 = "run_calls cfg modules later ?s"
  have i: "overlay_inv modules ?s" by (rule reachable_inv)
  have i1: "overlay_inv modules ?s1" by (rule process_inv[OF prod.collapse[symmetric] i])
  have i2: "overlay_inv modules ?s2" by (rule run_calls_inv[OF i])
  from process_growth[OF prod.collapse[symmetric], of cfg modules ev js ms ?s]
  have g1: "\<exists>ds fs. deployed_charm_classes ?s1 = deployed_charm_classes ?s @ ds \<and>
                finalized_charm_classes ?s1 = finalized_charm_classes ?s @ fs" by blast
  note g2 = run_calls_growth[of cfg modules later ?s]
  from i1 i2 have "set (finalized_charm_classes ?s1) \<subseteq> set (deployed_charm_classes ?s1)"
    "set (deployed_charm_classes ?s1) \<subseteq> set modules"
    "set (finalized_charm_classes ?s2) \<subseteq> set (deployed_charm_classes ?s2)"
    "set (deployed_charm_classes ?s2) \<subseteq> set modules"
    by (simp_all add: overlay_inv_def)
  with g1 g2 show ?thesis unfolding Let_def by (intro conjI)
qed

theorem lists_only_grow_and_chain_holds_witness:
  "deployed_charm_classes (snd (process single_node [keystone, mysql] all_fine keystone_up maas_empty
      (run_calls single_node [keystone, mysql] [(setup_fails, bare_node, maas_empty)]
         (init_overlay single_node)))) = [mysql, keystone] \<and>
   finalized_charm_classes (snd (process single_node [keystone, mysql] all_fine keystone_up maas_empty
      (run_calls single_node [keystone, mysql] [(setup_fails, bare_node, maas_empty)]
         (init_overlay single_node)))) = [keystone] \<and>
   set [keystone] \<subseteq> set [mysql, keystone] \<and> set [mysql, keystone] \<subseteq> set [keystone, mysql]"
  using lists_only_grow_and_chain_holds[of single_node "[keystone, mysql]"
      "[(setup_fails, bare_node, maas_empty)]" all_fine keystone_up maas_empty "[]"]
  by (simp add: eval_defs)

section \<open>Finalization waits for deployment and for the service\<close>

text \<open>
  Claim C4. In a call of \<open>process\<close>, a class that the call adds to
  \<open>finalized_charm_classes\<close>, or whose \<open>set_relations\<close> or \<open>post_proc\<close> the call
  invokes, is in \<open>deployed_charm_classes\<close> and the polled state has a service of its
  \<open>charm_name\<close>; a class without such a service is skipped. The second half states the
  same of the relation step alone: the class is deployed already when that step begins.
\<close>

theorem finalized_only_when_deployed_and_service_up:
  "(let s' = snd (process cfg modules ev js ms s) in
      \<forall>c. (c \<in> set (finalized_charm_classes s') \<and> c \<notin> set (finalized_charm_classes s)) \<or>
           SetRelations c \<in> set (new_events s s') \<or> PostProc c \<in> set (new_events s s')
        \<longrightarrow> c \<in> set (deployed_charm_classes s') \<and> service js (charm_name c) \<noteq> None) \<and>
   (let t' = snd (finalize_step ev js t) in
      \<forall>c. (c \<in> set (finalized_charm_classes t') \<and> c \<notin> set (finalized_charm_classes t)) \<or>
           SetRelations c \<in> set (new_events t t') \<or> PostProc c \<in> set (new_events t t')
        \<longrightarrow> c \<in> set (deployed_charm_classes t) \<and> service js (charm_name c) \<noteq> None)"
proof -
  let ?s' = "snd (process cfg modules ev js ms s)"
  let ?t' = "snd (finalize_step ev js t)"
  have p: "process cfg modules ev js ms s = (fst (process cfg modules ev js ms s), ?s')" by simp
  have f: "finalize_step ev js t = (fst (finalize_step ev js t), ?t')" by simp
  have A: "c \<in> set (deployed_charm_classes ?s') \<and> service_up js c"
    if h: "(c \<in> set (finalized_charm_classes ?s') \<and> c \<notin> set (finalized_charm_classes s)) \<or>
           SetRelations c \<in> set (new_events s ?s') \<or> PostProc c \<in> set (new_events s ?s')" for c
  proof -
    from process_growth[OF p] obtain ds fs where g:
      "finalized_charm_classes ?s' = finalized_charm_classes s @ fs"
      "set fs \<subseteq> set (deployed_charm_classes ?s')" "\<forall>c \<in> set fs. service_up js c"
      by (elim exE conjE)
    from process_events[OF p] obtain evs where e: "trace ?s' = trace s @ evs"
      "\<forall>e \<in> set evs.
              ((e = AddMachine \<or> is_Run e) \<and> machine s = None) \<or>
              (\<exists>c \<in> set modules. c \<notin> set (deployed_charm_classes s) \<and> \<not> in_services js c \<and>
                  machine ?s' \<noteq> None \<and> e = Setup c (lxc_target ?s')) \<or>
              (\<exists>c \<in> set (deployed_charm_classes ?s'). c \<notin> set (finalized_charm_classes s) \<and>
                  service_up js c \<and> (e = SetRelations c \<or> e = PostProc c))"
      by (elim exE conjE)
    note n = new_events_process[OF e(1)]
    from h consider (fin) "c \<in> set fs" | (ev) "SetRelations c \<in> set evs \<or> PostProc c \<in> set evs"
      unfolding n g(1) by auto
    then show ?thesis
    proof cases
      case fin
      with g(2,3) show ?thesis by auto
    next
      case ev
      then obtain e where "e \<in> set evs" "e = SetRelations c \<or> e = PostProc c" by auto
      with e(2) show ?thesis by fastforce
    qed
  qed
  have B: "c \<in> set (deployed_charm_classes t) \<and> service_up js c"
    if h: "(c \<in> set (finalized_charm_classes ?t') \<and> c \<notin> set (finalized_charm_classes t)) \<or>
           SetRelations c \<in> set (new_events t ?t') \<or> PostProc c \<in> set (new_events t ?t')" for c
  proof -
    from finalize_step_growth[OF f] obtain fs where g:
      "finalized_charm_classes ?t' = finalized_charm_classes t @ fs"
      "set fs \<subseteq> set (deployed_charm_classes t)" "\<forall>c \<in> set fs. service_up js c"
      by (elim exE conjE)
    from finalize_step_events[OF f] obtain evs where e: "trace ?t' = trace t @ evs"
      "\<forall>e \<in> set evs. \<exists>c \<in> set (deployed_charm_classes t).
               c \<notin> set (finalized_charm_classes t) \<and> service_up js c \<and>
               (e = SetRelations c \<or> e = PostProc c)"
      by (elim exE conjE)
    note n = new_events_process[OF e(1)]
    from h consider (fin) "c \<in> set fs" | (ev) "SetRelations c \<in> set evs \<or> PostProc c \<in> set evs"
      unfolding n g(1) by auto
    then show ?thesis
    proof cases
      case fin
      with g(2,3) show ?thesis by auto
    next
      case ev
      then obtain e where "e \<in> set evs" "e = SetRelations c \<or> e = PostProc c" by auto
      with e(2) show ?thesis by fastforce
    qed
  qed
  from A B show ?thesis unfolding Let_def service_up_def by blast
qed

theorem finalized_only_when_deployed_and_service_up_witness:
  "mysql \<in> set (deployed_charm_classes
      (snd (process single_node [mysql] all_fine all_up maas_empty (init_overlay single_node)))) \<and>
   service all_up (charm_name mysql) \<noteq> None \<and>
   mysql \<in> set (deployed_charm_classes
      ((init_overlay single_node)\<lparr>machine := Some node1, deployed_charm_classes := [mysql]\<rparr>))"
proof -
  note w = finalized_only_when_deployed_and_service_up[of single_node "[mysql]" all_fine all_up
      maas_empty "init_overlay single_node"
      "(init_overlay single_node)\<lparr>machine := Some node1, deployed_charm_classes := [mysql]\<rparr>",
      unfolded Let_def]
  from conjunct1[OF w, THEN spec, of mysql] conjunct2[OF w, THEN spec, of mysql]
  show ?thesis by (simp add: eval_defs)
qed

section \<open>A charm whose service is already there\<close>

text \<open>
Claim C5, as the code has it. Take a registered class \<open>c\<close> that is not in
  \<open>deployed_charm_classes\<close> and whose \<open>name()\<close> is among the service names of the polled
  state. A call of \<open>process\<close> never invokes \<open>setup\<close> of \<open>c\<close>. It appends \<open>c\<close> to
  \<open>deployed_charm_classes\<close> exactly when the call gets to \<open>c\<close> in the deployment loop: the
  overlay is not done, a controller machine is chosen by the end of the call, the network
  configuration did not raise, and no class sorted before \<open>c\<close> among the undeployed ones
  has a \<open>setup\<close> that is invoked and raises. In particular \<open>c\<close> is appended whenever such a
  call returns with a machine chosen.
\<close>

theorem service_present_never_setup:
  assumes p: "process cfg modules ev js ms s = (r, s')"
    and cm: "c \<in> set modules" and cd: "c \<notin> set (deployed_charm_classes s)"
    and cs: "in_services js c"
  shows "(\<forall>t. Setup c t \<notin> set (new_events s s')) \<and>
         (c \<in> set (deployed_charm_classes s') \<longleftrightarrow>
            \<not> done_flag s \<and> machine s' \<noteq> None \<and> r \<noteq> Inl RunFailure \<and>
            (\<forall>d \<in> set (takeWhile (\<lambda>d. d \<noteq> c)
                 (filter (\<lambda>d. d \<notin> set (deployed_charm_classes s))
                    (sort_key deploy_priority modules))).
               in_services js d \<or> \<not> setup_raises ev d (lxc_target s'))) \<and>
         (\<not> done_flag s \<and> machine s' \<noteq> None \<and> (\<exists>b. r = Inr b) \<longrightarrow>
            c \<in> set (deployed_charm_classes s'))"
  (is "?A \<and> (?L \<longleftrightarrow> ?N \<and> ?M \<and> ?R \<and> ?W s') \<and> ?C")
proof -
  have A: ?A
  proof (intro allI notI)
    fix t assume h: "Setup c t \<in> set (new_events s s')"
    from process_events[OF p] obtain evs where e: "trace s' = trace s @ evs"
      "\<forall>e \<in> set evs.
              ((e = AddMachine \<or> is_Run e) \<and> machine s = None) \<or>
              (\<exists>c \<in> set modules. c \<notin> set (deployed_charm_classes s) \<and> \<not> in_services js c \<and>
                  machine s' \<noteq> None \<and> e = Setup c (lxc_target s')) \<or>
              (\<exists>c \<in> set (deployed_charm_classes s'). c \<notin> set (finalized_charm_classes s) \<and>
                  service_up js c \<and> (e = SetRelations c \<or> e = PostProc c))"
      by (elim exE conjE)
    from h have "Setup c t \<in> set evs" unfolding new_events_process[OF e(1)] .
    with e(2) have "\<not> in_services js c" by fastforce
    with cs show False by simp
  qed
  have BC: "(?L \<longleftrightarrow> ?N \<and> ?M \<and> ?R \<and> ?W s') \<and> ?C"
  proof (cases "done_flag s")
    case True
    with p have "s' = s" by (simp add: process_def)
    with True cd show ?thesis by simp
  next
    case False
    from p False show ?thesis
    proof (cases rule: process_cases)
      case (acquire_raise e)
      from acquire_controller_char[OF acquire_raise(1)]
      have "deployed_charm_classes s' = deployed_charm_classes s"
        "e = ClientFailure \<and> machine s' = None \<or> e = RunFailure" by auto
      with cd acquire_raise(2) show ?thesis by auto
    next
      case wait
      from acquire_controller_char[OF wait(1)]
      have "deployed_charm_classes s' = deployed_charm_classes s" "machine s' = None" by auto
      with cd show ?thesis by simp
    next
      case (deploy_raise s1 e)
      note a = acquire_controller_frame[OF deploy_raise(1)]
      from a(5) have m1: "machine s1 \<noteq> None" by simp
      from cd a(2) have cd1: "c \<notin> set (deployed_charm_classes s1)" by simp
      from deploy_step_frame(1)[OF deploy_raise(2) m1]
      have ms: "machine s' = machine s1" .
      then have t: "lxc_target s1 = lxc_target s'" by (simp add: lxc_target_def)
      from deploy_step_char[OF deploy_raise(2) m1] have e: "e = HookFailure" by auto
      from deploy_step_marks[OF deploy_raise(2) m1 cm cd1 cs]
      have "?L \<longleftrightarrow> ?W s'" unfolding a(2) t by simp
      with False ms m1 e deploy_raise(3) show ?thesis by simp
    next
      case (finalize_raise s1 s2 e)
      note a = acquire_controller_frame[OF finalize_raise(1)]
      from a(5) have m1: "machine s1 \<noteq> None" by simp
      from cd a(2) have cd1: "c \<notin> set (deployed_charm_classes s1)" by simp
      from deploy_step_frame(1)[OF finalize_raise(2) m1] finalize_step_frame(1)[OF finalize_raise(3)]
      have ms: "machine s' = machine s1" by simp
      then have t: "lxc_target s1 = lxc_target s'" by (simp add: lxc_target_def)
      from finalize_step_char[OF finalize_raise(3)] have e: "e = HookFailure" by auto
      from finalize_step_frame(3)[OF finalize_raise(3)]
      have f3: "deployed_charm_classes s' = deployed_charm_classes s2" by simp
      from deploy_step_marks[OF finalize_raise(2) m1 cm cd1 cs]
      have "(c \<in> set (deployed_charm_classes s2) \<longleftrightarrow> ?W s') \<and>
            c \<in> set (deployed_charm_classes s2)" unfolding a(2) t by blast
      with False ms m1 e finalize_raise(4) f3 show ?thesis by auto
    next
      case (continue s1 s2)
      note a = acquire_controller_frame[OF continue(1)]
      from a(5) have m1: "machine s1 \<noteq> None" by simp
      from cd a(2) have cd1: "c \<notin> set (deployed_charm_classes s1)" by simp
      from deploy_step_frame(1)[OF continue(2) m1] finalize_step_frame(1)[OF continue(3)]
      have ms: "machine s' = machine s1" by simp
      then have t: "lxc_target s1 = lxc_target s'" by (simp add: lxc_target_def)
      from finalize_step_frame(3)[OF continue(3)]
      have f3: "deployed_charm_classes s' = deployed_charm_classes s2" by simp
      from deploy_step_marks[OF continue(2) m1 cm cd1 cs]
      have "(c \<in> set (deployed_charm_classes s2) \<longleftrightarrow> ?W s') \<and>
            c \<in> set (deployed_charm_classes s2)" unfolding a(2) t by blast
      with False ms m1 continue(5) f3 show ?thesis by auto
    next
      case (finish s1 s2 s3)
      note a = acquire_controller_frame[OF finish(1)]
      from a(5) have m1: "machine s1 \<noteq> None" by simp
      from cd a(2) have cd1: "c \<notin> set (deployed_charm_classes s1)" by simp
      from deploy_step_frame(1)[OF finish(2) m1] finalize_step_frame(1)[OF finish(3)] finish(6)
      have ms: "machine s' = machine s1" by simp
      then have t: "lxc_target s1 = lxc_target s'" by (simp add: lxc_target_def)
      from finalize_step_frame(3)[OF finish(3)] finish(6)
      have f3: "deployed_charm_classes s' = deployed_charm_classes s2" by simp
      from deploy_step_marks[OF finish(2) m1 cm cd1 cs]
      have "(c \<in> set (deployed_charm_classes s2) \<longleftrightarrow> ?W s') \<and>
            c \<in> set (deployed_charm_classes s2)" unfolding a(2) t by blast
      with False ms m1 finish(5) f3 show ?thesis by auto
    qed
  qed
  from BC have B: "?L \<longleftrightarrow> ?N \<and> ?M \<and> ?R \<and> ?W s'" and C: ?C by (rule conjunct1, rule conjunct2)
  from A B C show ?thesis by (intro conjI)
qed

theorem service_present_never_setup_witness:
  "keystone \<in> set [mysql, keystone] \<and>
   keystone \<notin> set (deployed_charm_classes (init_overlay single_node)) \<and>
   in_services keystone_up keystone \<and>
   Setup keystone ''lxc:1'' \<notin> set (new_events (init_overlay single_node)
      (snd (process single_node [mysql, keystone] all_fine keystone_up maas_empty
         (init_overlay single_node)))) \<and>
   keystone \<in> set (deployed_charm_classes
      (snd (process single_node [mysql, keystone] all_fine keystone_up maas_empty
         (init_overlay single_node))))"
proof -
  have h: "keystone \<in> set [mysql, keystone]"
    "keystone \<notin> set (deployed_charm_classes (init_overlay single_node))"
    "in_services keystone_up keystone"
    by (simp_all add: eval_defs in_services_def)
  note w = service_present_never_setup[OF prod.collapse[symmetric] h,
      where cfg = single_node and ev = all_fine and ms = maas_empty]
  have r: "\<not> done_flag (init_overlay single_node) \<and>
     machine (snd (process single_node [mysql, keystone] all_fine keystone_up maas_empty
         (init_overlay single_node))) \<noteq> None \<and>
     (\<exists>b. fst (process single_node [mysql, keystone] all_fine keystone_up maas_empty
         (init_overlay single_node)) = Inr b)"
    by (auto simp add: eval_defs)
  from w[THEN conjunct1, THEN spec, of "''lxc:1''"]
    w[THEN conjunct2, THEN conjunct2, THEN mp, OF r] h
  show ?thesis by simp
qed

text \<open>
  Claim C5 as stated fails: the service of the only charm is in the polled state, but the
  allocated machine has not started, so \<open>process\<close> returns \<open>True\<close> before the deployment
  loop and the class is not in \<open>deployed_charm_classes\<close>.
\<close>

theorem service_present_not_marked_counterexample:
  "keystone \<notin> set (deployed_charm_classes (init_overlay multi_node)) \<and>
   name keystone \<in> set (map service_name (services keystone_up_pending)) \<and>
   process multi_node [keystone] all_fine keystone_up_pending maas_empty (init_overlay multi_node) =
     (Inr True,
      \<lparr> done_flag = False, machine = None, deployed_charm_classes = [],
        finalized_charm_classes = [], single_net_configured = False,
        info_text = ''Waiting for a machine to become ready.'', trace = [] \<rparr>)"
  by (simp add: eval_defs)

section \<open>The bridge and a blocking function that raises\<close>

lemma run_f_simps:
  "run_f (Returned r) b = (None, (b\<lparr>res := r\<rparr>)\<lparr>unread := unread b + 1\<rparr>)"
  "run_f (Raises ExceptionRaised) b = (None, (log_event Worker LogDebug b)\<lparr>unread := unread b + 1\<rparr>)"
  "run_f (Raises OtherRaised) b = (Some OtherRaised, b)"
  by (simp_all add: run_f_def)

text \<open>
  Claim C6, as the code has it. When the blocking function raises an \<open>Exception\<close>, the
  worker logs the failure, calls nothing and writes to the pipe once. The loop's turn then
  calls the callback, on the loop thread, exactly once and with \<open>None\<close>, the initial value
  of \<open>result['res']\<close>; an \<open>Exception\<close> raised by the callback is caught and logged, the
  watch is removed and the pipe closed, and a further turn of the loop does nothing. The
  only failure that can reach the loop is one of the callback that is not an \<open>Exception\<close>.
\<close>

theorem run_async_exception_delivered_once:
  "run_f (Raises ExceptionRaised) (new_bridge :: 'r bridge) =
     (None, \<lparr> res = None, watched = True, unread = 1, bridge_log = [(Worker, LogDebug)] \<rparr>) \<and>
   run_async (Raises ExceptionRaised) callback =
     ((if callback None = Some OtherRaised then Some OtherRaised else None),
      \<lparr> res = (None :: 'r option), watched = False, unread = 0,
        bridge_log = [(Worker, LogDebug), (Loop, Callback None)]
          @ (if callback None = Some ExceptionRaised then [(Loop, LogWarning)] else [])
          @ [(Loop, RemoveWatchPipe), (Loop, ClosePipe)] \<rparr>) \<and>
   loop_turn callback (snd (run_async (Raises ExceptionRaised) callback)) =
     (None, snd (run_async (Raises ExceptionRaised) callback))"
  by (simp add: run_async_def loop_turn_def run_f_simps new_bridge_def done_handler_def
      log_event_def Let_def split: option.splits failure.splits)

text \<open>
  Claim C6 as stated fails for a blocking function that raises something other than an
  \<open>Exception\<close>: the worker ends before it logs or writes, so the callback never fires
  and the pipe stays watched.
\<close>

theorem run_async_other_failure_counterexample:
  "run_async (Raises OtherRaised) (\<lambda>r. None) =
     (None, \<lparr> res = (None :: unit option), watched = True, unread = 0, bridge_log = [] \<rparr>)"
  by (simp add: run_async_def loop_turn_def run_f_simps new_bridge_def)

section \<open>Looking for a controller machine in multi-node mode\<close>

text \<open>
Claim C7, as the code has it. In multi-node mode, on an overlay that is not done and has
  no machine: with no machine allocated to juju and none in maas, \<open>process\<close> sets the
  message, calls nothing and returns \<open>True\<close>; with none allocated to juju and some in maas,
  it sets the message and calls \<open>add_machine\<close> itself, a direct call, then returns \<open>True\<close>
  when that call returns and raises when it raises; with allocated machines of which none
  has the agent state \<open>started\<close>, it sets the message and returns \<open>True\<close>; otherwise the
  first allocated machine whose agent state is \<open>started\<close> becomes the overlay's machine.
\<close>

theorem multi_node_acquisition:
  assumes mu: "MULTI_SYSTEM cfg" and nd: "\<not> done_flag s" and mn: "machine s = None"
  shows
    "(machines_allocated js = [] \<and> maas_machines_allocated ms = [] \<longrightarrow>
        process cfg modules ev js ms s =
          (Inr True,
           s\<lparr>info_text := ''No machines allocated to juju. Please pxe boot a machine.''\<rparr>)) \<and>
     (machines_allocated js = [] \<and> maas_machines_allocated ms \<noteq> [] \<longrightarrow>
        process cfg modules ev js ms s =
          ((if add_machine_raises ev then Inl ClientFailure else Inr True),
           s\<lparr>info_text := ''Adding maas machine to juju'', trace := trace s @ [AddMachine]\<rparr>)) \<and>
     (machines_allocated js \<noteq> [] \<and>
      filter (\<lambda>m. agent_state m = ''started'') (machines_allocated js) = [] \<longrightarrow>
        process cfg modules ev js ms s =
          (Inr True, s\<lparr>info_text := ''Waiting for a machine to become ready.''\<rparr>)) \<and>
     (\<forall>m rest. filter (\<lambda>m. agent_state m = ''started'') (machines_allocated js) = m # rest \<longrightarrow>
        machine (snd (process cfg modules ev js ms s)) = Some m)"
proof (intro conjI impI allI)
  assume "machines_allocated js = [] \<and> maas_machines_allocated ms = []"
  with mu nd mn show "process cfg modules ev js ms s =
          (Inr True,
           s\<lparr>info_text := ''No machines allocated to juju. Please pxe boot a machine.''\<rparr>)"
    by (cases s) (simp add: process_def process_body_def acquire_controller_def
        get_controller_machine_def)
next
  assume "machines_allocated js = [] \<and> maas_machines_allocated ms \<noteq> []"
  with mu nd mn show "process cfg modules ev js ms s =
          ((if add_machine_raises ev then Inl ClientFailure else Inr True),
           s\<lparr>info_text := ''Adding maas machine to juju'', trace := trace s @ [AddMachine]\<rparr>)"
    by (cases s) (simp add: process_def process_body_def acquire_controller_def
        get_controller_machine_def emit_def)
next
  assume "machines_allocated js \<noteq> [] \<and>
      filter (\<lambda>m. agent_state m = ''started'') (machines_allocated js) = []"
  with mu nd mn show "process cfg modules ev js ms s =
          (Inr True, s\<lparr>info_text := ''Waiting for a machine to become ready.''\<rparr>)"
    by (cases s) (simp add: process_def process_body_def acquire_controller_def
        get_controller_machine_def get_started_machine_def)
next
  fix m rest
  assume f: "filter (\<lambda>m. agent_state m = ''started'') (machines_allocated js) = m # rest"
  from process_machine[OF nd prod.collapse[symmetric]] acquire_started_machine[OF mu mn f]
  show "machine (snd (process cfg modules ev js ms s)) = Some m" by simp
qed

theorem multi_node_acquisition_witness:
  "MULTI_SYSTEM multi_node \<and> \<not> done_flag (init_overlay multi_node) \<and>
   machine (init_overlay multi_node) = None \<and>
   machines_allocated no_machines = [] \<and> maas_machines_allocated maas_one \<noteq> [] \<and>
   process multi_node [mysql] all_fine no_machines maas_one (init_overlay multi_node) =
     (Inr True,
      (init_overlay multi_node)\<lparr>info_text := ''Adding maas machine to juju'',
                                 trace := [AddMachine]\<rparr>)"
proof -
  have h: "MULTI_SYSTEM multi_node" "\<not> done_flag (init_overlay multi_node)"
    "machine (init_overlay multi_node) = None"
    by (simp_all add: multi_node_def init_overlay_def)
  have g: "machines_allocated no_machines = [] \<and> maas_machines_allocated maas_one \<noteq> []"
    by (simp add: no_machines_def maas_one_def)
  note w = multi_node_acquisition[OF h, where js = no_machines and ms = maas_one
      and ev = all_fine and modules = "[mysql]", THEN conjunct2, THEN conjunct1, THEN mp, OF g]
  from w h g show ?thesis by (simp add: all_fine_def init_overlay_def)
qed

text \<open>
  Claim C7 as stated fails: \<open>add_machine\<close> is called by \<open>get_controller_machine\<close> itself,
  not handed to \<open>run_async\<close>, so when it raises, \<open>process\<close> raises instead of returning
  \<open>True\<close>.
\<close>

theorem add_machine_is_a_direct_call_counterexample:
  "process multi_node [mysql] add_machine_fails no_machines maas_one (init_overlay multi_node) =
     (Inl ClientFailure,
      \<lparr> done_flag = False, machine = None, deployed_charm_classes = [],
        finalized_charm_classes = [], single_net_configured = False,
        info_text = ''Adding maas machine to juju'', trace = [AddMachine] \<rparr>)"
  by (simp add: eval_defs)

section \<open>The controller machine is chosen once\<close>

text \<open>
  Claim C10. An overlay whose machine is \<open>m\<close> keeps \<open>m\<close> through every later call of
  \<open>process\<close>, whatever the polled states of those calls contain, and every \<open>setup\<close>
  invoked by them is given \<open>lxc:\<close> followed by the id of \<open>m\<close>. The second half starts
  from the call that ends with the machine \<open>m\<close> (the call that chose it, or a later one):
  the \<open>setup\<close> calls of that call and of all calls after it target \<open>m\<close> too.
\<close>

theorem controller_machine_kept_and_targeted:
  "(\<forall>m. machine s = Some m \<longrightarrow>
      machine (run_calls cfg modules calls s) = Some m \<and>
      (\<forall>c t. Setup c t \<in> set (new_events s (run_calls cfg modules calls s))
         \<longrightarrow> t = ''lxc:'' @ machine_id m)) \<and>
   (let s1 = snd (process cfg modules ev js ms s);
        s2 = run_calls cfg modules calls s1
    in \<forall>m. machine s1 = Some m \<longrightarrow>
         machine s2 = Some m \<and>
         (\<forall>c t. Setup c t \<in> set (new_events s s2) \<longrightarrow> t = ''lxc:'' @ machine_id m))"
proof -
  have A: "machine (run_calls cfg modules calls s) = Some m \<and>
      (\<forall>c t. Setup c t \<in> set (new_events s (run_calls cfg modules calls s))
         \<longrightarrow> t = ''lxc:'' @ machine_id m)" if m: "machine s = Some m" for m
  proof -
    from run_calls_machine_events[OF m, of cfg modules calls] obtain evs where
      e: "machine (run_calls cfg modules calls s) = Some m"
      "trace (run_calls cfg modules calls s) = trace s @ evs"
      "\<forall>e \<in> set evs. e \<noteq> AddMachine \<and> \<not> is_Run e \<and>
           (\<forall>c t. e = Setup c t \<longrightarrow> t = ''lxc:'' @ machine_id m)"
      by (elim exE conjE)
    from e(3) show ?thesis unfolding new_events_process[OF e(2)] using e(1) by blast
  qed
  let ?s1 = "snd (process cfg modules ev js ms s)"
  let ?s2 = "run_calls cfg modules calls ?s1"
  have p: "process cfg modules ev js ms s = (fst (process cfg modules ev js ms s), ?s1)" by simp
  have B: "machine ?s2 = Some m \<and>
         (\<forall>c t. Setup c t \<in> set (new_events s ?s2) \<longrightarrow> t = ''lxc:'' @ machine_id m)"
    if m: "machine ?s1 = Some m" for m
  proof -
    from m have t1: "lxc_target ?s1 = ''lxc:'' @ machine_id m" by (simp add: lxc_target_def)
    from process_events[OF p] obtain e1 where e1: "trace ?s1 = trace s @ e1"
      "\<forall>e \<in> set e1.
              ((e = AddMachine \<or> is_Run e) \<and> machine s = None) \<or>
              (\<exists>c \<in> set modules. c \<notin> set (deployed_charm_classes s) \<and> \<not> in_services js c \<and>
                  machine ?s1 \<noteq> None \<and> e = Setup c (lxc_target ?s1)) \<or>
              (\<exists>c \<in> set (deployed_charm_classes ?s1). c \<notin> set (finalized_charm_classes s) \<and>
                  service_up js c \<and> (e = SetRelations c \<or> e = PostProc c))"
      by (elim exE conjE)
    have ok1: "\<forall>c t. Setup c t \<in> set e1 \<longrightarrow> t = ''lxc:'' @ machine_id m"
    proof (intro allI impI)
      fix c t assume "Setup c t \<in> set e1"
      with e1(2) have "t = lxc_target ?s1" by fastforce
      with t1 show "t = ''lxc:'' @ machine_id m" by simp
    qed
    from run_calls_machine_events[OF m, of cfg modules calls] obtain e2 where
      e2: "machine ?s2 = Some m" "trace ?s2 = trace ?s1 @ e2"
      "\<forall>e \<in> set e2. e \<noteq> AddMachine \<and> \<not> is_Run e \<and>
           (\<forall>c t. e = Setup c t \<longrightarrow> t = ''lxc:'' @ machine_id m)"
      by (elim exE conjE)
    from e1(1) e2(2) have "trace ?s2 = trace s @ (e1 @ e2)" by simp
    note n = new_events_process[OF this]
    from ok1 e2(3) have "\<forall>c t. Setup c t \<in> set (e1 @ e2) \<longrightarrow> t = ''lxc:'' @ machine_id m"
      by auto
    with e2(1) show ?thesis unfolding n by blast
  qed
  from A B show ?thesis unfolding Let_def by blast
qed

theorem controller_machine_kept_and_targeted_witness:
  "machine (snd (process multi_node [mysql] all_fine bare_node maas_empty (init_overlay multi_node)))
     = Some node1 \<and>
   machine (run_calls multi_node [mysql] [(all_fine, no_machines, maas_empty)]
     (snd (process multi_node [mysql] all_fine bare_node maas_empty (init_overlay multi_node))))
     = Some node1 \<and>
   Setup mysql ''lxc:1'' \<in> set (new_events (init_overlay multi_node)
     (run_calls multi_node [mysql] [(all_fine, no_machines, maas_empty)]
       (snd (process multi_node [mysql] all_fine bare_node maas_empty (init_overlay multi_node))))) \<and>
   ''lxc:1'' = ''lxc:'' @ machine_id node1"
proof -
  note w = controller_machine_kept_and_targeted[where s = "init_overlay multi_node"
      and cfg = multi_node and modules = "[mysql]"
      and calls = "[(all_fine, no_machines, maas_empty)]"
      and ev = all_fine and js = bare_node and ms = maas_empty,
      THEN conjunct2, unfolded Let_def, THEN spec, of node1]
  have m: "machine (snd (process multi_node [mysql] all_fine bare_node maas_empty
      (init_overlay multi_node))) = Some node1"
    by (simp add: eval_defs)
  from w[THEN mp, OF m] m show ?thesis
    by (simp add: eval_defs)
qed

end
